theory Spec2Isabelle
  imports Main "HOL-Library.Word" "HOL-Library.Signed_Division"
begin

unbundle bit_operations_syntax

section \<open>Package common: byte and digit helpers\<close>

type_synonym byte = "8 word"
type_synonym uint32 = "32 word"

text \<open>
  \<^verbatim>\<open>binary.LittleEndian.PutUint32(b, a)\<close> on a fresh 4-byte slice, as
  \<^verbatim>\<open>UintToByte\<close> does: byte \<open>i\<close> of the slice is \<open>byte(a >> (8 * i))\<close>.
\<close>

definition UintToByte :: "uint32 \<Rightarrow> byte list" where
  "UintToByte a =
     [ucast a, ucast (drop_bit 8 a), ucast (drop_bit 16 a), ucast (drop_bit 24 a)]"

text \<open>
  \<^verbatim>\<open>UintTo2Byte\<close>: the same 4-byte slice \<open>b\<close>, then \<^verbatim>\<open>copy(c[:], b[:])\<close> into a
  \<^verbatim>\<open>[2]byte\<close>. Go's \<open>copy\<close> moves \<open>min(len(c), len(b)) = 2\<close> elements, the first two.
\<close>

definition UintTo2Byte :: "uint32 \<Rightarrow> byte list" where
  "UintTo2Byte a = take 2 (UintToByte a)"

text \<open>The little-endian reading of a byte string.\<close>

fun le_decode :: "byte list \<Rightarrow> nat" where
  "le_decode [] = 0"
| "le_decode (b # bs) = unat b + 256 * le_decode bs"

text \<open>
  The run-time panics of the two packages that are not \<open>error\<close> values of the program:
  an integer division by zero, and the use of a nil pointer.
\<close>

datatype go_fault = DivideByZero | NilDereference

text \<open>
  \<^verbatim>\<open>int(math.Pow(10, float64(p)))\<close>, an \<open>int\<close> of 64 bits. For \<open>0 \<le> p \<le> 18\<close> the power
  is an integer below \<open>2^63\<close> that float64 holds exactly (\<open>5^18 < 2^53\<close>), so the
  conversion is exact. For \<open>p < 0\<close> the power is below 1 and truncates to 0. For
  \<open>p > 18\<close> the power exceeds \<open>int64\<close> (from \<open>p = 309\<close> on it is \<open>+Inf\<close>) and Go leaves
  the converted value to the implementation; the model takes the value amd64 gives for
  every float out of range, \<open>-2^63\<close>, as \<open>exp2_int\<close> below does.
\<close>

definition pow10_int :: "int \<Rightarrow> int" where
  "pow10_int p =
     (if p < 0 then 0
      else if p \<le> 18 then 10 ^ nat p
      else - (2 ^ 63))"

text \<open>
  \<^verbatim>\<open>ExtractBit(num, place)\<close>: \<open>r := num % 10^place; return r / 10^(place-1)\<close>, on
  \<open>int\<close> values, that is integers from \<open>-2^63\<close> to \<open>2^63 - 1\<close>. Go's \<open>%\<close> and \<open>/\<close>
  truncate towards zero (\<open>smod\<close>, \<open>sdiv\<close>) and panic on a zero divisor. Neither
  overflows here: the divisors are never \<open>-1\<close>. The first line panics for the least
  \<open>place\<close>, so \<open>place - 1\<close> never wraps around.
\<close>

definition ExtractBit :: "int \<Rightarrow> int \<Rightarrow> go_fault + int" where
  "ExtractBit num place =
     (if pow10_int place = 0 then Inl DivideByZero
      else
        let r = num smod pow10_int place in
        if pow10_int (place - 1) = 0 then Inl DivideByZero
        else Inr (r sdiv pow10_int (place - 1)))"

definition FlipBit :: "int \<Rightarrow> int" where
  "FlipBit b = (if b = 1 then 0 else 1)"

section \<open>Package listener: event lookup\<close>

text \<open>
  \<^verbatim>\<open>EventByID\<close> ranges over \<^verbatim>\<open>abiObject.Events\<close>, a Go map from event names to events.
  The map is modelled by the list of its entries in the order this run of the loop visits
  them (Go does not fix the order). \<open>event.ID().Bytes()\<close> is go-ethereum's; it is the
  parameter \<open>ID\<close>. \<^verbatim>\<open>bytes.Equal\<close> compares contents, so a nil \<open>sigdata\<close> is the empty
  list. \<open>abiObject\<close> is a pointer: \<open>None\<close> is the nil pointer, and reading its field
  \<open>Events\<close> is a run-time panic. A nil result is \<open>None\<close>.
\<close>

record 'e ABI =
  Events :: "(string \<times> 'e) list"

fun EventByID_loop :: "('e \<Rightarrow> byte list) \<Rightarrow> (string \<times> 'e) list \<Rightarrow> byte list \<Rightarrow> 'e option" where
  "EventByID_loop ID [] sigdata = None"
| "EventByID_loop ID ((name, event) # rest) sigdata =
     (if ID event = sigdata then Some event else EventByID_loop ID rest sigdata)"

definition EventByID ::
  "('e \<Rightarrow> byte list) \<Rightarrow> 'e ABI option \<Rightarrow> byte list \<Rightarrow> go_fault + 'e option" where
  "EventByID ID abiObject sigdata =
     (case abiObject of
        None \<Rightarrow> Inl NilDereference
      | Some a \<Rightarrow> Inr (EventByID_loop ID (Events a) sigdata))"

section \<open>Package core: the account tree store\<close>

subsection \<open>Errors\<close>

text \<open>
  The error values of the modelled code, one constructor per place that creates one.
  Go compares errors by identity, so errors made at different places are different
  values. Errors handed back by code that is not modelled here (the hashing and path
  helpers, the contract caller) are \<open>Other\<close> with their message. \<open>IndexOutOfRange\<close> is
  the run-time panic of an index past a slice or string.
\<close>

datatype error =
    DimensionMismatch
  | UnableToInsert
  | RecordNotFound
  | StorageError
  | IndexOutOfRange
  | DuplicateBatch
  | InvalidTransition
  | HeightExceeded
  | UnknownAccount
  | Other string

subsection \<open>Rows of the account table\<close>

text \<open>
  A Go \<open>[]byte\<close> that reaches the database layer: \<open>None\<close> is the nil slice, which gorm
  takes for a blank field, and \<open>Some bs\<close> is a slice with the bytes \<open>bs\<close>, possibly
  none. A reader of the bytes finds none in a nil slice.
\<close>

type_synonym go_bytes = "byte list option"

definition bytes_of :: "go_bytes \<Rightarrow> byte list" where
  "bytes_of b = (case b of None \<Rightarrow> [] | Some bs \<Rightarrow> bs)"

text \<open>
  \<^verbatim>\<open>UserAccount\<close>. The \<open>uint64\<close> fields are natural numbers; no claim depends on
  their wrap-around.
\<close>

record UserAccount =
  AccountID :: nat
  Data :: go_bytes
  Path :: string
  Status :: nat
  Type :: nat
  Hash :: string
  Level :: nat
  CreatedByDepositSubTree :: string

text \<open>
  The status and type constants, with the values the comments of the struct give:
  Pending = 0, Active = 1, InActive = 2; root = 0, terminal = 1, non terminal = 2.
\<close>

definition STATUS_PENDING :: nat where "STATUS_PENDING = 0"
definition STATUS_ACTIVE :: nat where "STATUS_ACTIVE = 1"
definition STATUS_INACTIVE :: nat where "STATUS_INACTIVE = 2"
definition TYPE_ROOT :: nat where "TYPE_ROOT = 0"
definition TYPE_TERMINAL :: nat where "TYPE_TERMINAL = 1"
definition TYPE_NON_TERMINAL :: nat where "TYPE_NON_TERMINAL = 2"
definition ZERO :: nat where "ZERO = 0"

text \<open>
  Code of the repository that account.go calls and that is not among the sources, taken
  as parameters: the content hash \<open>common.Keccak256(data).String()\<close>, the pair hash
  \<open>GetParent\<close> on two stored hash strings (with the hex decoding of its arguments and
  the printing of its result; a failure of either is its error), the coordinator's
  reserved path and the path of the next leaf.
\<close>

record core_env =
  Keccak256 :: "byte list \<Rightarrow> string"
  GetParent :: "string \<Rightarrow> string \<Rightarrow> string + string"
  GenCoordinatorPath :: "nat \<Rightarrow> string"
  GetAdjacentNodePath :: "string \<Rightarrow> string + string"

text \<open>
  Modelled from the spec: \<^verbatim>\<open>GetParentPath\<close> is core code outside src/. A path is the
  ``ordered bit-string from root to this node'' and a parent's path ``is the common
  prefix'' of its children's paths (sections 3 and 4.1): the path without its last bit.
\<close>

definition GetParentPath :: "string \<Rightarrow> string" where
  "GetParentPath path = butlast path"

text \<open>
  Modelled from the spec: \<^verbatim>\<open>GetOtherChild\<close> is core code outside src/. The sibling is
  ``the node obtained by flipping the last bit of the current prefix'' (section 4.1).
\<close>

definition GetOtherChild :: "string \<Rightarrow> string" where
  "GetOtherChild path =
     (if path = [] then []
      else butlast path @ [if last path = CHR ''0'' then CHR ''1'' else CHR ''0''])"

text \<open>
  Modelled from the spec: \<^verbatim>\<open>GetNthBitFromRight\<close> is core code outside src/. Ancestors
  are recomputed ``in bit-order (bit 0: updated node is left child; bit 1: right
  child)'' (section 4.1): the bit of the path at position \<open>i\<close> counted from its last
  character. An index past the path is a run-time panic.
\<close>

definition GetNthBitFromRight :: "string \<Rightarrow> nat \<Rightarrow> error + nat" where
  "GetNthBitFromRight path i =
     (if i < length path
      then Inr (if path ! (length path - 1 - i) = CHR ''0'' then 0 else 1)
      else Inl IndexOutOfRange)"

definition UpdatePath :: "UserAccount \<Rightarrow> string \<Rightarrow> UserAccount" where
  "UpdatePath acc path = acc\<lparr>Path := path, Level := length path\<rparr>"

definition CreateAccountHash :: "core_env \<Rightarrow> UserAccount \<Rightarrow> UserAccount" where
  "CreateAccountHash env acc = acc\<lparr>Hash := Keccak256 env (bytes_of (Data acc))\<rparr>"

definition NewUserAccount :: "core_env \<Rightarrow> nat \<Rightarrow> nat \<Rightarrow> string \<Rightarrow> go_bytes \<Rightarrow> UserAccount" where
  "NewUserAccount env ident status path data =
     CreateAccountHash env
       (UpdatePath \<lparr>AccountID = ident, Data = data, Path = path, Status = status,
                     Type = TYPE_TERMINAL, Hash = [], Level = 0,
                     CreatedByDepositSubTree = []\<rparr> path)"

definition NewAccountNode :: "string \<Rightarrow> string \<Rightarrow> UserAccount" where
  "NewAccountNode path hash =
     (UpdatePath \<lparr>AccountID = ZERO, Data = None, Path = path, Status = STATUS_ACTIVE,
                   Type = TYPE_NON_TERMINAL, Hash = [], Level = 0,
                   CreatedByDepositSubTree = []\<rparr> path)\<lparr>Hash := hash\<rparr>"

subsection \<open>The database\<close>

text \<open>
  The batch rows and the chain parameters, with the fields the listener reads and
  writes. \<open>BatchStatus\<close> is the field \<^verbatim>\<open>Status\<close> of \<^verbatim>\<open>core.Batch\<close>.
\<close>

record Batch =
  BatchID :: nat
  StateRoot :: string
  TxRoot :: string
  TransactionsIncluded :: "byte list"
  Committer :: string
  StakeAmount :: nat
  FinalisesOn :: int
  BatchStatus :: nat

record Params =
  MaxDepositSubTreeHeight :: nat
  FinalisationTime :: nat
  ParamsStakeAmount :: nat
  DepositSubTreeHeight :: nat
  DepositSubTreeRoot :: string

text \<open>
  The database behind \<^verbatim>\<open>db.Instance\<close>: the rows of each table in the order the
  database returns them, and \<open>db_fault\<close>, which says that the storage layer fails, so that
  every gorm call returns its error.
\<close>

record DB =
  accounts :: "UserAccount list"
  batches :: "Batch list"
  params :: "Params option"
  db_fault :: bool

text \<open>
  The gorm calls of account.go.
  \<^item> \<open>Create\<close> and \<open>BulkInsert\<close> append rows; an empty bulk insert sends nothing. The
    column of \<open>Data\<close> has the tag \<^verbatim>\<open>DEFAULT:0\<close>: for a row whose \<open>Data\<close> is blank
    \<open>Create\<close> leaves the column out and \<open>BulkInsert\<close> writes the value of the tag, and
    either way the row is stored with the text \<open>0\<close>, the one byte 48 (\<open>stored_row\<close>).
  \<^item> \<open>Where(...).Find(&account)\<close> with a struct scans every matching row into the same
    struct, so the last one stays, and reports record-not-found when none matched.
  \<^item> \<open>Where(...).Find(&accs)\<close> with a slice returns the matching rows, possibly none.
  \<^item> \<open>Model(&x).Where(...).Update(x)\<close> with a struct writes the fields of \<open>x\<close> that are
    not blank into every matching row. Blank is the zero number, the empty string and
    the nil slice; a slice that is empty but not nil is written.
  \<^item> \<open>Where(...).Delete(&x)\<close> removes the matching rows; matching none is not an error.
\<close>

definition stored_row :: "UserAccount \<Rightarrow> UserAccount" where
  "stored_row row = (case Data row of None \<Rightarrow> row\<lparr>Data := Some [48]\<rparr> | Some d \<Rightarrow> row)"

definition gorm_Create :: "UserAccount \<Rightarrow> DB \<Rightarrow> (error + unit) \<times> DB" where
  "gorm_Create row db =
     (if db_fault db then (Inl StorageError, db)
      else (Inr (), db\<lparr>accounts := accounts db @ [stored_row row]\<rparr>))"

definition BulkInsert :: "UserAccount list \<Rightarrow> DB \<Rightarrow> (error + unit) \<times> DB" where
  "BulkInsert rows db =
     (if rows = [] then (Inr (), db)
      else if db_fault db then (Inl StorageError, db)
      else (Inr (), db\<lparr>accounts := accounts db @ map stored_row rows\<rparr>))"

definition gorm_Find_one :: "(UserAccount \<Rightarrow> bool) \<Rightarrow> DB \<Rightarrow> error + UserAccount" where
  "gorm_Find_one cond db =
     (if db_fault db then Inl StorageError
      else (case filter cond (accounts db) of
              [] \<Rightarrow> Inl RecordNotFound
            | r # rs \<Rightarrow> Inr (last (r # rs))))"

definition gorm_Find_all :: "(UserAccount \<Rightarrow> bool) \<Rightarrow> DB \<Rightarrow> error + UserAccount list" where
  "gorm_Find_all cond db =
     (if db_fault db then Inl StorageError else Inr (filter cond (accounts db)))"

definition gorm_updates :: "UserAccount \<Rightarrow> UserAccount \<Rightarrow> UserAccount" where
  "gorm_updates row new =
     \<lparr>AccountID = (if AccountID new = 0 then AccountID row else AccountID new),
      Data = (case Data new of None \<Rightarrow> Data row | Some d \<Rightarrow> Some d),
      Path = (if Path new = [] then Path row else Path new),
      Status = (if Status new = 0 then Status row else Status new),
      Type = (if Type new = 0 then Type row else Type new),
      Hash = (if Hash new = [] then Hash row else Hash new),
      Level = (if Level new = 0 then Level row else Level new),
      CreatedByDepositSubTree =
        (if CreatedByDepositSubTree new = [] then CreatedByDepositSubTree row
         else CreatedByDepositSubTree new)\<rparr>"

definition gorm_Update :: "(UserAccount \<Rightarrow> bool) \<Rightarrow> UserAccount \<Rightarrow> DB \<Rightarrow> (error + unit) \<times> DB" where
  "gorm_Update cond new db =
     (if db_fault db then (Inl StorageError, db)
      else (Inr (),
            db\<lparr>accounts := map (\<lambda>row. if cond row then gorm_updates row new else row)
                               (accounts db)\<rparr>))"

definition gorm_Delete :: "(UserAccount \<Rightarrow> bool) \<Rightarrow> DB \<Rightarrow> (error + unit) \<times> DB" where
  "gorm_Delete cond db =
     (if db_fault db then (Inl StorageError, db)
      else (Inr (), db\<lparr>accounts := filter (\<lambda>row. \<not> cond row) (accounts db)\<rparr>))"

subsection \<open>Reading the tree\<close>

definition GetAccountsAtDepth :: "DB \<Rightarrow> nat \<Rightarrow> error + UserAccount list" where
  "GetAccountsAtDepth db depth = gorm_Find_all (\<lambda>r. Level r = depth) db"

definition GetAccountByPath :: "DB \<Rightarrow> string \<Rightarrow> error + UserAccount" where
  "GetAccountByPath db path =
     (case gorm_Find_one (\<lambda>r. Path r = path) db of
        Inl e \<Rightarrow> Inl RecordNotFound
      | Inr account \<Rightarrow> Inr account)"

definition GetAccountByID :: "DB \<Rightarrow> nat \<Rightarrow> error + UserAccount" where
  "GetAccountByID db ID =
     (case gorm_Find_one (\<lambda>r. AccountID r = ID \<and> Status r = STATUS_ACTIVE) db of
        Inl e \<Rightarrow> Inl RecordNotFound
      | Inr account \<Rightarrow> Inr account)"

definition GetRoot :: "DB \<Rightarrow> error + UserAccount" where
  "GetRoot db =
     (case gorm_Find_one (\<lambda>r. Level r = 0) db of
        Inl e \<Rightarrow> Inl RecordNotFound
      | Inr account \<Rightarrow> Inr account)"

text \<open>
  \<^verbatim>\<open>GetSiblings\<close>: the loop runs \<open>len(path)\<close> times; \<open>relativePath\<close> loses its last
  bit each round and the sibling found is appended. On an error the caller gets the
  error (\<^verbatim>\<open>UpdateAccount\<close> drops the partial list).
\<close>

fun GetSiblings_loop :: "DB \<Rightarrow> nat \<Rightarrow> string \<Rightarrow> UserAccount list \<Rightarrow> error + UserAccount list" where
  "GetSiblings_loop db 0 relativePath siblings = Inr siblings"
| "GetSiblings_loop db (Suc i) relativePath siblings =
     (case GetAccountByPath db (GetOtherChild relativePath) of
        Inl e \<Rightarrow> Inl e
      | Inr otherNode \<Rightarrow>
          GetSiblings_loop db i (GetParentPath relativePath) (siblings @ [otherNode]))"

definition GetSiblings :: "DB \<Rightarrow> string \<Rightarrow> error + UserAccount list" where
  "GetSiblings db path = GetSiblings_loop db (length path) path []"

subsection \<open>Writing the tree\<close>

definition updateAccount :: "UserAccount \<Rightarrow> string \<Rightarrow> DB \<Rightarrow> (error + unit) \<times> DB" where
  "updateAccount newAcc path db = gorm_Update (\<lambda>r. Path r = path) newAcc db"

text \<open>\<open>tempAccount\<close> of \<^verbatim>\<open>UpdateParentWithHash\<close> and \<^verbatim>\<open>UpdateRootNodeHashes\<close>: a zero struct.\<close>

definition zeroAccount :: UserAccount where
  "zeroAccount = \<lparr>AccountID = 0, Data = None, Path = [], Status = 0, Type = 0, Hash = [],
                   Level = 0, CreatedByDepositSubTree = []\<rparr>"

definition UpdateParentWithHash :: "string \<Rightarrow> string \<Rightarrow> DB \<Rightarrow> (error + unit) \<times> DB" where
  "UpdateParentWithHash pathToParent newHash db =
     updateAccount (zeroAccount\<lparr>Path := pathToParent, Hash := newHash\<rparr>) pathToParent db"

definition UpdateRootNodeHashes :: "string \<Rightarrow> DB \<Rightarrow> (error + unit) \<times> DB" where
  "UpdateRootNodeHashes newRoot db =
     updateAccount (zeroAccount\<lparr>Path := [], Hash := newRoot\<rparr>) [] db"

definition StoreNode :: "string \<Rightarrow> UserAccount \<Rightarrow> UserAccount \<Rightarrow> DB \<Rightarrow> (error + unit) \<times> DB" where
  "StoreNode parentHash leftNode rightNode db =
     (case updateAccount leftNode (Path leftNode) db of
        (Inl e, db1) \<Rightarrow> (Inl e, db1)
      | (Inr u, db1) \<Rightarrow>
          (case updateAccount rightNode (Path rightNode) db1 of
             (Inl e, db2) \<Rightarrow> (Inl e, db2)
           | (Inr u, db2) \<Rightarrow>
               UpdateParentWithHash (GetParentPath (Path leftNode)) parentHash db2))"

text \<open>
  The loop of \<^verbatim>\<open>StoreLeaf\<close> over \<open>siblings[i]\<close>, \<open>i\<close> counting up from 0, with the node
  computed so far. It returns the last computed node. \<^verbatim>\<open>HashToByteArray\<close> and
  \<^verbatim>\<open>String\<close> go between a stored hash string and its bytes; on the way into
  \<^verbatim>\<open>GetParent\<close> they are part of that parameter, and decoding a stored hash and printing
  it again, as for the new root, gives the stored string back.
\<close>

fun StoreLeaf_loop ::
  "core_env \<Rightarrow> string \<Rightarrow> nat \<Rightarrow> UserAccount list \<Rightarrow> UserAccount \<Rightarrow> DB
     \<Rightarrow> (error + UserAccount) \<times> DB" where
  "StoreLeaf_loop env path i [] computedNode db = (Inr computedNode, db)"
| "StoreLeaf_loop env path i (sibling # rest) computedNode db =
     (case GetNthBitFromRight path i of
        Inl e \<Rightarrow> (Inl e, db)
      | Inr isComputedRightSibling \<Rightarrow>
          (let leftNode = (if isComputedRightSibling = 0 then computedNode else sibling);
               rightNode = (if isComputedRightSibling = 0 then sibling else computedNode)
           in case GetParent env (Hash leftNode) (Hash rightNode) of
                Inl m \<Rightarrow> (Inl (Other m), db)
              | Inr parentHash \<Rightarrow>
                  (case StoreNode parentHash leftNode rightNode db of
                     (Inl e, db1) \<Rightarrow> (Inl e, db1)
                   | (Inr u, db1) \<Rightarrow>
                       (case GetAccountByPath db1 (GetParentPath (Path computedNode)) of
                          Inl e \<Rightarrow> (Inl e, db1)
                        | Inr parentAccount \<Rightarrow>
                            StoreLeaf_loop env path (Suc i) rest parentAccount db1))))"

definition StoreLeaf ::
  "core_env \<Rightarrow> UserAccount \<Rightarrow> string \<Rightarrow> UserAccount list \<Rightarrow> DB \<Rightarrow> (error + unit) \<times> DB" where
  "StoreLeaf env account path siblings db =
     (case StoreLeaf_loop env path 0 siblings account db of
        (Inl e, db1) \<Rightarrow> (Inl e, db1)
      | (Inr computedNode, db1) \<Rightarrow> UpdateRootNodeHashes (Hash computedNode) db1)"

definition UpdateAccount :: "core_env \<Rightarrow> UserAccount \<Rightarrow> DB \<Rightarrow> (error + unit) \<times> DB" where
  "UpdateAccount env account db =
     (let account1 = CreateAccountHash env account in
      case GetSiblings db (Path account1) of
        Inl e \<Rightarrow> (Inl e, db)
      | Inr siblings \<Rightarrow> StoreLeaf env account1 (Path account1) siblings db)"

definition AddNewPendingAccount :: "UserAccount \<Rightarrow> DB \<Rightarrow> (error + unit) \<times> DB" where
  "AddNewPendingAccount acc db = gorm_Create acc db"

definition DeletePendingAccount :: "nat \<Rightarrow> DB \<Rightarrow> (error + unit) \<times> DB" where
  "DeletePendingAccount ID db =
     (case gorm_Delete (\<lambda>r. AccountID r = ID \<and> Status r = STATUS_PENDING) db of
        (Inl e, db1) \<Rightarrow> (Inl RecordNotFound, db1)
      | (Inr u, db1) \<Rightarrow> (Inr (), db1))"

subsection \<open>Initialising the tree\<close>

text \<open>
  \<^verbatim>\<open>int(math.Exp2(float64(depth)))\<close>: exactly \<open>2^depth\<close> while that is below \<open>2^63\<close>.
  From depth 63 on the float exceeds \<open>int64\<close> and Go leaves the conversion to the
  implementation; the model takes the value amd64 gives, \<open>-2^63\<close>.
\<close>

definition exp2_int :: "nat \<Rightarrow> int" where
  "exp2_int depth = (if depth < 63 then 2 ^ depth else - (2 ^ 63))"

text \<open>
  \<^verbatim>\<open>InsertCoordinatorAccounts\<close> changes the account behind its pointer and stores it. The
  caller reads the path of that account afterwards and nothing else of it, so the model
  hands the path back.
\<close>

definition InsertCoordinatorAccounts ::
  "core_env \<Rightarrow> UserAccount \<Rightarrow> nat \<Rightarrow> DB \<Rightarrow> (error + string) \<times> DB" where
  "InsertCoordinatorAccounts env acc depth db =
     (let acc1 = (CreateAccountHash env (UpdatePath acc (GenCoordinatorPath env depth)))
                   \<lparr>Type := TYPE_TERMINAL\<rparr>
      in case gorm_Create acc1 db of
           (Inl e, db1) \<Rightarrow> (Inl e, db1)
         | (Inr u, db1) \<Rightarrow> (Inr (Path acc1), db1))"

text \<open>The first loop of \<^verbatim>\<open>InitBalancesTree\<close>: every further leaf gets the path next to
  the previous leaf's.\<close>

fun InitBalancesTree_paths :: "core_env \<Rightarrow> string \<Rightarrow> UserAccount list \<Rightarrow> error + UserAccount list" where
  "InitBalancesTree_paths env prevNodePath [] = Inr []"
| "InitBalancesTree_paths env prevNodePath (acc # rest) =
     (case GetAdjacentNodePath env prevNodePath of
        Inl m \<Rightarrow> Inl (Other m)
      | Inr pathToAdjacentNode \<Rightarrow>
          (case InitBalancesTree_paths env pathToAdjacentNode rest of
             Inl e \<Rightarrow> Inl e
           | Inr records \<Rightarrow> Inr (UpdatePath acc pathToAdjacentNode # records)))"

text \<open>The inner loop of the merkelisation: two rows at a time give one parent;
  \<open>accs[i+1]\<close> past the end is a run-time panic.\<close>

fun InitBalancesTree_parents :: "core_env \<Rightarrow> UserAccount list \<Rightarrow> error + UserAccount list" where
  "InitBalancesTree_parents env [] = Inr []"
| "InitBalancesTree_parents env [l] = Inl IndexOutOfRange"
| "InitBalancesTree_parents env (l # r # rest) =
     (case GetParent env (Hash l) (Hash r) of
        Inl m \<Rightarrow> Inl (Other m)
      | Inr parentHash \<Rightarrow>
          (case InitBalancesTree_parents env rest of
             Inl e \<Rightarrow> Inl e
           | Inr nodes \<Rightarrow> Inr (NewAccountNode (GetParentPath (Path l)) parentHash # nodes)))"

text \<open>The outer loop: \<open>for i := depth; i > 0; i--\<close>.\<close>

fun InitBalancesTree_levels :: "core_env \<Rightarrow> nat \<Rightarrow> DB \<Rightarrow> (error + unit) \<times> DB" where
  "InitBalancesTree_levels env 0 db = (Inr (), db)"
| "InitBalancesTree_levels env (Suc n) db =
     (case GetAccountsAtDepth db (Suc n) of
        Inl e \<Rightarrow> (Inl e, db)
      | Inr accs \<Rightarrow>
          (case InitBalancesTree_parents env accs of
             Inl e \<Rightarrow> (Inl e, db)
           | Inr nextLevelAccounts \<Rightarrow>
               (case BulkInsert nextLevelAccounts db of
                  (Inl e, db1) \<Rightarrow> (Inl UnableToInsert, db1)
                | (Inr u, db1) \<Rightarrow> InitBalancesTree_levels env n db1)))"

definition InitBalancesTree ::
  "core_env \<Rightarrow> nat \<Rightarrow> UserAccount list \<Rightarrow> DB \<Rightarrow> (error + unit) \<times> DB" where
  "InitBalancesTree env depth genesisAccounts db =
     (if exp2_int depth \<noteq> int (length genesisAccounts) then (Inl DimensionMismatch, db)
      else
        (case genesisAccounts of
           [] \<Rightarrow> (Inl IndexOutOfRange, db)
         | g0 # others \<Rightarrow>
             (case InsertCoordinatorAccounts env g0 depth db of
                (Inl e, db1) \<Rightarrow> (Inl e, db1)
              | (Inr prevNodePath, db1) \<Rightarrow>
                  (case InitBalancesTree_paths env prevNodePath others of
                     Inl e \<Rightarrow> (Inl e, db1)
                   | Inr insertRecords \<Rightarrow>
                       (case BulkInsert insertRecords db1 of
                          (Inl e, db2) \<Rightarrow> (Inl UnableToInsert, db2)
                        | (Inr u, db2) \<Rightarrow> InitBalancesTree_levels env depth db2)))))"

section \<open>The batch ledger, the chain parameters and the deposit accumulator\<close>

text \<open>
  Modelled from the spec: \<^verbatim>\<open>GetParams\<close> is core code outside src/. The chain parameters
  are a ``process-wide configuration snapshot'' (section 3) read from the database; the
  read fails when the storage layer fails or no snapshot is stored.
\<close>

definition GetParams :: "DB \<Rightarrow> error + Params" where
  "GetParams db =
     (if db_fault db then Inl StorageError
      else (case params db of None \<Rightarrow> Inl RecordNotFound | Some p \<Rightarrow> Inr p))"

text \<open>
  Modelled from the spec: \<^verbatim>\<open>GetBatchByIndex\<close> is core code outside src/. Section 4.3:
  \<open>getByIndex(id)\<close> ``fails with NotFound if absent''.
\<close>

definition GetBatchByIndex :: "DB \<Rightarrow> nat \<Rightarrow> error + Batch" where
  "GetBatchByIndex db index =
     (if db_fault db then Inl StorageError
      else (case find (\<lambda>b. BatchID b = index) (batches db) of
              None \<Rightarrow> Inl RecordNotFound
            | Some b \<Rightarrow> Inr b))"

text \<open>
  Modelled from the spec: \<^verbatim>\<open>AddNewBatch\<close> is core code outside src/. Section 4.3:
  \<open>recordCommitted(batch)\<close> ``inserts a new batch; fails with DuplicateBatch if batchID
  already exists''.
\<close>

definition AddNewBatch :: "Batch \<Rightarrow> DB \<Rightarrow> (error + unit) \<times> DB" where
  "AddNewBatch batch db =
     (if db_fault db then (Inl StorageError, db)
      else if find (\<lambda>b. BatchID b = BatchID batch) (batches db) \<noteq> None
      then (Inl DuplicateBatch, db)
      else (Inr (), db\<lparr>batches := batches db @ [batch]\<rparr>))"

text \<open>
  Modelled from the spec: \<^verbatim>\<open>CommitBatch\<close> is core code outside src/. Section 4.3:
  \<open>transitionStatus(id, newStatus)\<close> ``enforces forward-only transition; fails with
  InvalidTransition on regression or no-op''; statuses are numbered in lifecycle order.
  \<^verbatim>\<open>CommitBatch(newBatch)\<close> is the transition of batch \<open>BatchID newBatch\<close> to
  \<open>BatchStatus newBatch\<close>.
\<close>

definition CommitBatch :: "Batch \<Rightarrow> DB \<Rightarrow> (error + unit) \<times> DB" where
  "CommitBatch newBatch db =
     (if db_fault db then (Inl StorageError, db)
      else (case find (\<lambda>b. BatchID b = BatchID newBatch) (batches db) of
              None \<Rightarrow> (Inl RecordNotFound, db)
            | Some old \<Rightarrow>
                if BatchStatus old < BatchStatus newBatch
                then (Inr (),
                      db\<lparr>batches :=
                           map (\<lambda>b. if BatchID b = BatchID newBatch
                                     then b\<lparr>BatchStatus := BatchStatus newBatch\<rparr> else b)
                             (batches db)\<rparr>)
                else (Inl InvalidTransition, db)))"

text \<open>
  Modelled from the spec: \<^verbatim>\<open>OnDepositLeafMerge\<close> is core code outside src/. Section 4.2:
  \<open>mergeLeaf(left, right)\<close> ``combines two adjacent pending leaves/subtree-roots into one
  hash, increments height by one level. Fails with HeightExceeded if newHeight >
  maxDepositSubTreeHeight.'' The new root is the one the event reports. The accumulator's
  height and root are kept with the parameters.
\<close>

definition OnDepositLeafMerge :: "string \<Rightarrow> string \<Rightarrow> string \<Rightarrow> DB \<Rightarrow> (error + nat) \<times> DB" where
  "OnDepositLeafMerge left right newRoot db =
     (case GetParams db of
        Inl e \<Rightarrow> (Inl e, db)
      | Inr p \<Rightarrow>
          (let newHeight = DepositSubTreeHeight p + 1 in
           if newHeight > MaxDepositSubTreeHeight p then (Inl HeightExceeded, db)
           else (Inr newHeight,
                 db\<lparr>params := Some (p\<lparr>DepositSubTreeHeight := newHeight,
                                         DepositSubTreeRoot := newRoot\<rparr>)\<rparr>)))"

section \<open>Package listener: the syncer\<close>

subsection \<open>Events, transactions and collaborators\<close>

text \<open>A chain log, and the events the logger contract emits, with the fields the
  handlers read (hashes in their printed form).\<close>

record Log =
  TxHash :: string
  LogData :: "byte list"

record LoggerDepositLeafMerged =
  Left :: string
  Right :: string
  NewRoot :: string

record LoggerNewBatch =
  Index :: nat
  Txroot :: string
  UpdatedRoot :: string
  EventCommitter :: string

text \<open>\<^verbatim>\<open>core.Tx\<close> as \<^verbatim>\<open>core.NewTx(from, to, txType, data, sig)\<close> fills it.\<close>

record Tx =
  From :: nat
  To :: nat
  TxType :: nat
  TxData :: "byte list"
  Signature :: "byte list"

definition NewTx :: "nat \<Rightarrow> nat \<Rightarrow> nat \<Rightarrow> byte list \<Rightarrow> byte list \<Rightarrow> Tx" where
  "NewTx from to txType txData sig =
     \<lparr>From = from, To = to, TxType = txType, TxData = txData, Signature = sig\<rparr>"

text \<open>
  What the syncer calls outside the sources, as parameters: the log decoder
  (\<^verbatim>\<open>common.UnpackLog\<close>), the contract caller \<^verbatim>\<open>loadedBazooka\<close> (fetching a batch's
  call data, decompressing transfers into the lists from, to, amount and sig, decoding an
  account into ID, balance, nonce and token, encoding a transfer, and computing an
  account's data after a transaction), the lookup of the node a finished deposit
  subtree replaces, and the constants \<^verbatim>\<open>TX_TRANSFER_TYPE\<close> and \<^verbatim>\<open>BATCH_COMMITTED\<close>.
\<close>

record syncer_env =
  core :: core_env
  UnpackDepositLeafMerged :: "Log \<Rightarrow> string + LoggerDepositLeafMerged"
  UnpackNewBatch :: "Log \<Rightarrow> string + LoggerNewBatch"
  FetchBatchInputData :: "string \<Rightarrow> string + byte list list"
  DecompressTransferTxs ::
    "byte list list \<Rightarrow> string + (nat list \<times> nat list \<times> nat list \<times> byte list list)"
  DecodeAccount :: "byte list \<Rightarrow> string + (nat \<times> nat \<times> nat \<times> nat)"
  EncodeTransferTx :: "nat \<Rightarrow> nat \<Rightarrow> nat \<Rightarrow> nat \<Rightarrow> nat \<Rightarrow> nat \<Rightarrow> string + byte list"
  ApplyTx :: "UserAccount \<Rightarrow> Tx \<Rightarrow> string + go_bytes"
  GetDepositNodeAndSiblings :: "DB \<Rightarrow> string + (UserAccount \<times> UserAccount list)"
  TX_TRANSFER_TYPE :: nat
  BATCH_COMMITTED :: nat

text \<open>
  The syncer: its database, the finalisation requests handed to
  \<^verbatim>\<open>loadedBazooka.FireDepositFinalisation\<close> so far, and the messages of
  \<^verbatim>\<open>s.Logger.Error\<close>. A handler either returns or panics.
\<close>

record Syncer =
  DBInstance :: DB
  fired :: "(UserAccount \<times> UserAccount list \<times> nat) list"
  logged_errors :: "string list"

datatype outcome = Done | Panicked error

definition ZEROROOT :: string where
  "ZEROROOT = ''0x'' @ replicate 64 (CHR ''0'')"

text \<open>
  Modelled from the spec: \<^verbatim>\<open>core.ConcatTxs\<close> is core code outside src/. Section 3:
  \<open>transactionsIncluded\<close> is the ``concatenated raw transaction bytes, in submission
  order''.
\<close>

definition ConcatTxs :: "byte list list \<Rightarrow> byte list" where
  "ConcatTxs txs = concat txs"

subsection \<open>Applying a batch\<close>

text \<open>
  Modelled from the spec: \<^verbatim>\<open>Tx.GetVerificationData\<close> is core code outside src/. Section
  4.4, step 2a: ``Load from and to leaves by account id; fail with UnknownAccount if
  either is missing or Inactive.'' The two leaves are what \<^verbatim>\<open>ApplyTx\<close> is then given.
\<close>

definition GetVerificationData :: "Tx \<Rightarrow> DB \<Rightarrow> error + (UserAccount \<times> UserAccount)" where
  "GetVerificationData tx db =
     (case GetAccountByID db (From tx) of
        Inl e \<Rightarrow> Inl UnknownAccount
      | Inr fromAcc \<Rightarrow>
          (case GetAccountByID db (To tx) of
             Inl e \<Rightarrow> Inl UnknownAccount
           | Inr toAcc \<Rightarrow> Inr (fromAcc, toAcc)))"

text \<open>
  Modelled from the spec: \<^verbatim>\<open>Tx.Apply\<close> is core code outside src/. Section 4.4, step 2c:
  ``Persist both updated leaves via the Account Tree Store's updateLeaf, which cascades
  hash recomputation to the root'': the sender's leaf first, then the receiver's, each
  loaded by account id and written with \<^verbatim>\<open>UpdateAccount\<close>.
\<close>

definition Tx_Apply :: "core_env \<Rightarrow> Tx \<Rightarrow> go_bytes \<Rightarrow> go_bytes \<Rightarrow> DB \<Rightarrow> (error + unit) \<times> DB" where
  "Tx_Apply env tx updatedFrom updatedTo db =
     (case GetAccountByID db (From tx) of
        Inl e \<Rightarrow> (Inl UnknownAccount, db)
      | Inr fromAcc \<Rightarrow>
          (case UpdateAccount env (fromAcc\<lparr>Data := updatedFrom\<rparr>) db of
             (Inl e, db1) \<Rightarrow> (Inl e, db1)
           | (Inr u, db1) \<Rightarrow>
               (case GetAccountByID db1 (To tx) of
                  Inl e \<Rightarrow> (Inl UnknownAccount, db1)
                | Inr toAcc \<Rightarrow> UpdateAccount env (toAcc\<lparr>Data := updatedTo\<rparr>) db1)))"

text \<open>
  One round of the loop of \<^verbatim>\<open>ApplyTxsFromBatch\<close>, for index \<open>i\<close>. Indexing one of
  the decompressed lists past its end is a run-time panic, at the place the source
  reads it.
\<close>

definition ApplyTxsFromBatch_step ::
  "syncer_env \<Rightarrow> nat list \<times> nat list \<times> nat list \<times> byte list list \<Rightarrow> nat \<Rightarrow> DB
     \<Rightarrow> (error + unit) \<times> DB" where
  "ApplyTxsFromBatch_step env d i db =
     (case d of (from, to, amount, sig) \<Rightarrow>
        if \<not> i < length from then (Inl IndexOutOfRange, db)
        else
          (case GetAccountByID db (from ! i) of
             Inl e \<Rightarrow> (Inl e, db)
           | Inr fromAccount \<Rightarrow>
               (case DecodeAccount env (bytes_of (Data fromAccount)) of
                  Inl m \<Rightarrow> (Inl (Other m), db)
                | Inr (accID, balance, nonce, token) \<Rightarrow>
                    if \<not> (i < length to \<and> i < length amount) then (Inl IndexOutOfRange, db)
                    else
                      (case EncodeTransferTx env (from ! i) (to ! i) token nonce (amount ! i)
                              (TX_TRANSFER_TYPE env) of
                         Inl m \<Rightarrow> (Inl (Other m), db)
                       | Inr txData \<Rightarrow>
                           if \<not> i < length sig then (Inl IndexOutOfRange, db)
                           else
                             (let coreTx = NewTx (AccountID fromAccount) (to ! i)
                                             (TX_TRANSFER_TYPE env) txData (sig ! i)
                              in case GetVerificationData coreTx db of
                                   Inl e \<Rightarrow> (Inl e, db)
                                 | Inr (fromMP, toMP) \<Rightarrow>
                                     (case ApplyTx env fromMP coreTx of
                                        Inl m \<Rightarrow> (Inl (Other m), db)
                                      | Inr updatedFromAccData \<Rightarrow>
                                          (case ApplyTx env toMP coreTx of
                                             Inl m \<Rightarrow> (Inl (Other m), db)
                                           | Inr updatedToAccData \<Rightarrow>
                                               Tx_Apply (core env) coreTx updatedFromAccData
                                                 updatedToAccData db)))))))"

text \<open>\<open>for i := range txs\<close>: the indices in order, stopping at the first error.\<close>

fun ApplyTxsFromBatch_loop ::
  "syncer_env \<Rightarrow> nat list \<times> nat list \<times> nat list \<times> byte list list \<Rightarrow> nat list \<Rightarrow> DB
     \<Rightarrow> (error + unit) \<times> DB" where
  "ApplyTxsFromBatch_loop env d [] db = (Inr (), db)"
| "ApplyTxsFromBatch_loop env d (i # rest) db =
     (case ApplyTxsFromBatch_step env d i db of
        (Inl e, db1) \<Rightarrow> (Inl e, db1)
      | (Inr u, db1) \<Rightarrow> ApplyTxsFromBatch_loop env d rest db1)"

definition ApplyTxsFromBatch :: "syncer_env \<Rightarrow> byte list list \<Rightarrow> DB \<Rightarrow> (error + unit) \<times> DB" where
  "ApplyTxsFromBatch env txs db =
     (if length txs = 0 then (Inr (), db)
      else
        (case DecompressTransferTxs env txs of
           Inl m \<Rightarrow> (Inl (Other m), db)
         | Inr d \<Rightarrow> ApplyTxsFromBatch_loop env d [0..<length txs] db))"

subsection \<open>The event handlers\<close>

definition SendDepositFinalisationTx :: "syncer_env \<Rightarrow> Syncer \<Rightarrow> Syncer" where
  "SendDepositFinalisationTx env s =
     (case GetParams (DBInstance s) of
        Inl e \<Rightarrow> s
      | Inr p \<Rightarrow>
          (case GetDepositNodeAndSiblings env (DBInstance s) of
             Inl m \<Rightarrow> s
           | Inr (nodeToBeReplaced, siblings) \<Rightarrow>
               s\<lparr>fired := fired s @ [(nodeToBeReplaced, siblings, MaxDepositSubTreeHeight p)]\<rparr>))"

definition processDepositLeafMerged :: "syncer_env \<Rightarrow> Log \<Rightarrow> Syncer \<Rightarrow> outcome \<times> Syncer" where
  "processDepositLeafMerged env vLog s =
     (case UnpackDepositLeafMerged env vLog of
        Inl m \<Rightarrow> (Panicked (Other m), s)
      | Inr event \<Rightarrow>
          (case OnDepositLeafMerge (Left event) (Right event) (NewRoot event) (DBInstance s) of
             (Inl e, db1) \<Rightarrow> (Panicked e, s\<lparr>DBInstance := db1\<rparr>)
           | (Inr newheight, db1) \<Rightarrow>
               (case GetParams db1 of
                  Inl e \<Rightarrow> (Panicked e, s\<lparr>DBInstance := db1\<rparr>)
                | Inr p \<Rightarrow>
                    if newheight = MaxDepositSubTreeHeight p
                    then (Done, SendDepositFinalisationTx env (s\<lparr>DBInstance := db1\<rparr>))
                    else (Done, s\<lparr>DBInstance := db1\<rparr>))))"

text \<open>
  \<^verbatim>\<open>processNewBatch\<close>. A batch that is not in the ledger has its transactions applied
  and is added; an error of the lookup other than record-not-found is logged. For a
  batch that is found the source only looks at its status: if that is not
  \<^verbatim>\<open>BATCH_COMMITTED\<close> it calls \<^verbatim>\<open>CommitBatch\<close> and drops the result (the comparison of
  \<open>batch.StateRoot\<close> with the event's root before it has an empty body, so it is no
  branch here), and if it is \<^verbatim>\<open>BATCH_COMMITTED\<close> it does nothing at all.
  \<open>newBatch_of\<close> is the batch row both branches build.
\<close>

definition newBatch_of :: "syncer_env \<Rightarrow> LoggerNewBatch \<Rightarrow> byte list list \<Rightarrow> Params \<Rightarrow> Batch" where
  "newBatch_of env event txs p =
     \<lparr>BatchID = Index event,
      StateRoot = UpdatedRoot event,
      TxRoot = Txroot event,
      TransactionsIncluded = ConcatTxs txs,
      Committer = EventCommitter event,
      StakeAmount = ParamsStakeAmount p,
      FinalisesOn = int (FinalisationTime p),
      BatchStatus = BATCH_COMMITTED env\<rparr>"

definition processNewBatch :: "syncer_env \<Rightarrow> Log \<Rightarrow> Syncer \<Rightarrow> outcome \<times> Syncer" where
  "processNewBatch env vLog s =
     (case UnpackNewBatch env vLog of
        Inl m \<Rightarrow> (Panicked (Other m), s)
      | Inr event \<Rightarrow>
          (case GetParams (DBInstance s) of
             Inl e \<Rightarrow> (Done, s)
           | Inr p \<Rightarrow>
               (case (if ZEROROOT \<noteq> Txroot event then FetchBatchInputData env (TxHash vLog)
                      else Inr []) of
                  Inl m \<Rightarrow> (Panicked (Other m), s)
                | Inr txs \<Rightarrow>
                    (case GetBatchByIndex (DBInstance s) (Index event) of
                       Inl e \<Rightarrow>
                         if e = RecordNotFound
                         then
                           (case ApplyTxsFromBatch env txs (DBInstance s) of
                              (Inl e1, db1) \<Rightarrow> (Panicked e1, s\<lparr>DBInstance := db1\<rparr>)
                            | (Inr u, db1) \<Rightarrow>
                                (case AddNewBatch (newBatch_of env event txs p) db1 of
                                   (Inl e2, db2) \<Rightarrow> (Panicked e2, s\<lparr>DBInstance := db2\<rparr>)
                                 | (Inr u, db2) \<Rightarrow> (Done, s\<lparr>DBInstance := db2\<rparr>)))
                         else (Done, s\<lparr>logged_errors :=
                                          logged_errors s @ [''Unable to fetch batch'']\<rparr>)
                     | Inr batch \<Rightarrow>
                         if BatchStatus batch \<noteq> BATCH_COMMITTED env
                         then (Done,
                               s\<lparr>DBInstance :=
                                    snd (CommitBatch (newBatch_of env event txs p)
                                           (DBInstance s))\<rparr>)
                         else (Done, s)))))"

section \<open>Frame and tree predicates\<close>

text \<open>Everything of the database but the account table is the same.\<close>

definition same_ledger :: "DB \<Rightarrow> DB \<Rightarrow> bool" where
  "same_ledger db db' =
     (batches db' = batches db \<and> params db' = params db \<and> db_fault db' = db_fault db)"

text \<open>
  The tree paths: a path is a string of the characters 0 and 1, and \<open>bit_paths n\<close>
  lists the paths of length \<open>n\<close>.
\<close>

definition is_bit_path :: "string \<Rightarrow> bool" where
  "is_bit_path p = list_all (\<lambda>c. c = CHR ''0'' \<or> c = CHR ''1'') p"

fun bit_paths :: "nat \<Rightarrow> string list" where
  "bit_paths 0 = [[]]"
| "bit_paths (Suc n) = concat (map (\<lambda>p. [p @ ''0'', p @ ''1'']) (bit_paths n))"

text \<open>
  Root consistency (sections 3 and 8 of the spec) at the node of path \<open>t\<close>: the store
  has the node and both its children, and the node's hash is the pair hash of the
  children's stored hashes, left child first.
\<close>

definition consistent_at :: "core_env \<Rightarrow> DB \<Rightarrow> string \<Rightarrow> bool" where
  "consistent_at env db t =
     (case GetAccountByPath db t of
        Inl e \<Rightarrow> False
      | Inr n \<Rightarrow>
          (case GetAccountByPath db (t @ ''0'') of
             Inl e \<Rightarrow> False
           | Inr l \<Rightarrow>
               (case GetAccountByPath db (t @ ''1'') of
                  Inl e \<Rightarrow> False
                | Inr r \<Rightarrow> GetParent env (Hash l) (Hash r) = Inr (Hash n))))"

text \<open>
  A row has level 0 exactly when its path is empty (\<open>UpdatePath\<close> keeps the level
  equal to the length of the path), so that \<open>GetRoot\<close> finds the row of the empty path.
\<close>

definition levels_ok :: "DB \<Rightarrow> bool" where
  "levels_ok db = list_all (\<lambda>r. (Level r = 0) = (Path r = [])) (accounts db)"

text \<open>
  A store that holds a tree of the given depth: the storage answers, the levels are as
  above, the root is there, and every node above the leaves is consistent.
\<close>

definition tree_consistent :: "core_env \<Rightarrow> nat \<Rightarrow> DB \<Rightarrow> bool" where
  "tree_consistent env depth db =
     (\<not> db_fault db
      \<and> levels_ok db
      \<and> (case GetAccountByPath db [] of Inl e \<Rightarrow> False | Inr root \<Rightarrow> True)
      \<and> list_all (\<lambda>n. list_all (consistent_at env db) (bit_paths n)) [0..<depth])"

text \<open>
  The recomputation of a sibling proof, as the claim words it: start from a hash, and for
  each sibling in leaf-to-root order hash the pair, the computed hash on the left when
  the path bit is 0 and on the right when it is 1. These are the hashes the loop of
  \<^verbatim>\<open>StoreLeaf\<close> computes, without its writes.
\<close>

fun recompute_root :: "core_env \<Rightarrow> string \<Rightarrow> nat \<Rightarrow> string \<Rightarrow> UserAccount list \<Rightarrow> error + string" where
  "recompute_root env path i h [] = Inr h"
| "recompute_root env path i h (sibling # rest) =
     (case GetNthBitFromRight path i of
        Inl e \<Rightarrow> Inl e
      | Inr b \<Rightarrow>
          (case (if b = 0 then GetParent env h (Hash sibling)
                 else GetParent env (Hash sibling) h) of
             Inl m \<Rightarrow> Inl (Other m)
           | Inr parentHash \<Rightarrow> recompute_root env path (Suc i) parentHash rest))"

text \<open>The printed hashes of the environment are never the empty string.\<close>

definition hash_nonblank :: "core_env \<Rightarrow> bool" where
  "hash_nonblank env =
     ((\<forall>d. Keccak256 env d \<noteq> []) \<and> (\<forall>l r h. GetParent env l r = Inr h \<longrightarrow> h \<noteq> []))"

text \<open>
  Counting paths in binary. \<open>next_path p\<close> is the bit path of the same length that
  follows \<open>p\<close>, if there is one (\<open>next_rev\<close> works on the path read from its last
  bit), and \<open>path_of n k\<close> is the path of \<open>n\<close> bits of the number \<open>k\<close>, the path of the
  node at position \<open>k\<close> of level \<open>n\<close> counted from the left.
\<close>

fun next_rev :: "string \<Rightarrow> string option" where
  "next_rev [] = None"
| "next_rev (c # cs) =
     (if c = CHR ''0'' then Some (CHR ''1'' # cs)
      else map_option (\<lambda>q. CHR ''0'' # q) (next_rev cs))"

definition next_path :: "string \<Rightarrow> string option" where
  "next_path p = map_option rev (next_rev (rev p))"

fun path_of :: "nat \<Rightarrow> nat \<Rightarrow> string" where
  "path_of 0 k = []"
| "path_of (Suc n) k = path_of n (k div 2) @ [if even k then CHR ''0'' else CHR ''1'']"

text \<open>
  What the claims about the tree need of the two path helpers that are parameters: the
  coordinator's reserved path of a tree of the given depth is the leftmost leaf, and
  the path adjacent to a leaf is the next one in binary order (``assigns canonical
  paths to the remainder by in-order adjacency'', section 4.1 of the spec).
\<close>

definition binary_paths :: "core_env \<Rightarrow> nat \<Rightarrow> bool" where
  "binary_paths env depth =
     (GenCoordinatorPath env depth = replicate depth (CHR ''0'')
      \<and> list_all (\<lambda>p. case next_path p of
                         None \<Rightarrow> True
                       | Some q \<Rightarrow> GetAdjacentNodePath env p = Inr q)
          (bit_paths depth))"

text \<open>
  A run of updates, each through \<^verbatim>\<open>UpdateAccount\<close>, that stops at the first error; and
  the accounts that sit at a leaf of a tree of the given depth.
\<close>

fun UpdateAccounts :: "core_env \<Rightarrow> UserAccount list \<Rightarrow> DB \<Rightarrow> (error + unit) \<times> DB" where
  "UpdateAccounts env [] db = (Inr (), db)"
| "UpdateAccounts env (a # rest) db =
     (case UpdateAccount env a db of
        (Inl e, db1) \<Rightarrow> (Inl e, db1)
      | (Inr u, db1) \<Rightarrow> UpdateAccounts env rest db1)"

definition at_leaf :: "nat \<Rightarrow> UserAccount \<Rightarrow> bool" where
  "at_leaf depth a = (is_bit_path (Path a) \<and> length (Path a) = depth)"

text \<open>
  The rows of a level in table order, and what \<^verbatim>\<open>InitBalancesTree\<close> has built when
  its loop is about to read level \<open>i\<close>: every row has the level of its path, no row
  is above level \<open>i\<close>, every level from \<open>i\<close> down to the leaves holds its \<open>2^n\<close> nodes in
  order, and the rows from level \<open>i\<close> on hold the pair hash of their two children.
\<close>

definition level_rows :: "DB \<Rightarrow> nat \<Rightarrow> UserAccount list" where
  "level_rows db n = filter (\<lambda>r. Level r = n) (accounts db)"

definition built :: "core_env \<Rightarrow> nat \<Rightarrow> nat \<Rightarrow> DB \<Rightarrow> bool" where
  "built env depth i db =
     (\<not> db_fault db
      \<and> (\<forall>r \<in> set (accounts db). Level r = length (Path r))
      \<and> (\<forall>n < i. level_rows db n = [])
      \<and> (\<forall>n. i \<le> n \<and> n \<le> depth \<longrightarrow>
            map Path (level_rows db n) = map (path_of n) [0..<2 ^ n])
      \<and> (\<forall>n k. i \<le> n \<and> n < depth \<and> k < 2 ^ n \<longrightarrow>
            GetParent env (Hash (level_rows db (Suc n) ! (2 * k)))
                          (Hash (level_rows db (Suc n) ! (2 * k + 1)))
              = Inr (Hash (level_rows db n ! k))))"

section \<open>A small instance\<close>

text \<open>
  A concrete instance to run the model on: a toy content hash and pair hash, paths
  counted in binary, accounts of four bytes (id, balance, nonce, token), transactions of
  four bytes (from, to, amount, signature), logs of a \<open>NewBatch\<close> event that hold the
  index, a byte for the transaction root and the characters of the new state root, and
  a tree of depth 1 built by \<open>InitBalancesTree\<close> with 100 units on account 1 and none
  on account 2.
\<close>

definition toy_core :: core_env where
  "toy_core =
     \<lparr>Keccak256 = (\<lambda>d. ''h'' @ map (\<lambda>b. char_of (unat b)) d),
      GetParent = (\<lambda>l r. Inr (''('' @ l @ ''+'' @ r @ '')'')),
      GenCoordinatorPath = (\<lambda>d. replicate d (CHR ''0'')),
      GetAdjacentNodePath =
        (\<lambda>p. case next_path p of None \<Rightarrow> Inl ''no adjacent path'' | Some q \<Rightarrow> Inr q)\<rparr>"

definition toy_ApplyTx :: "UserAccount \<Rightarrow> Tx \<Rightarrow> string + go_bytes" where
  "toy_ApplyTx acc tx =
     (case bytes_of (Data acc) of
        [i, b, n, t] \<Rightarrow>
          (case TxData tx of
             [f, r, tok, nonce, a, ty] \<Rightarrow>
               if unat i = From tx
               then (if unat b < unat a then Inl ''insufficient balance''
                     else Inr (Some [i, b - a, n + 1, t]))
               else Inr (Some [i, b + a, n, t])
           | _ \<Rightarrow> Inl ''bad transaction'')
      | _ \<Rightarrow> Inl ''bad account'')"

definition toy_GetDepositNodeAndSiblings :: "DB \<Rightarrow> string + (UserAccount \<times> UserAccount list)" where
  "toy_GetDepositNodeAndSiblings db =
     (case GetAccountByPath db ''1'' of
        Inl e \<Rightarrow> Inl ''no node for the deposit subtree''
      | Inr node \<Rightarrow>
          (case GetSiblings db (Path node) of
             Inl e \<Rightarrow> Inl ''no siblings''
           | Inr siblings \<Rightarrow> Inr (node, siblings)))"

definition toy_env :: syncer_env where
  "toy_env =
     \<lparr>core = toy_core,
      UnpackDepositLeafMerged =
        (\<lambda>l. case LogData l of
                [a, b, c] \<Rightarrow> Inr \<lparr>Left = [char_of (unat a)], Right = [char_of (unat b)],
                                  NewRoot = [char_of (unat c)]\<rparr>
              | _ \<Rightarrow> Inl ''bad log''),
      UnpackNewBatch =
        (\<lambda>l. case LogData l of
                i # t # r \<Rightarrow> Inr \<lparr>Index = unat i,
                                  Txroot = (if t = 0 then ZEROROOT else ''0x'' @ [char_of (unat t)]),
                                  UpdatedRoot = map (\<lambda>b. char_of (unat b)) r,
                                  EventCommitter = ''0xc0''\<rparr>
              | _ \<Rightarrow> Inl ''bad log''),
      FetchBatchInputData =
        (\<lambda>h. if h = ''0xb1'' then Inr [[1, 2, 30, 9]]
              else if h = ''0xb2'' then Inr [[1, 2, 30, 9], [2, 1, 50, 9]]
              else Inl ''unknown transaction''),
      DecompressTransferTxs =
        (\<lambda>txs. if list_all (\<lambda>t. length t = 4) txs
                then Inr (map (\<lambda>t. unat (t ! 0)) txs, map (\<lambda>t. unat (t ! 1)) txs,
                          map (\<lambda>t. unat (t ! 2)) txs, map (\<lambda>t. [t ! 3]) txs)
                else Inl ''bad transaction''),
      DecodeAccount =
        (\<lambda>d. case d of [i, b, n, t] \<Rightarrow> Inr (unat i, unat b, unat n, unat t)
                      | _ \<Rightarrow> Inl ''bad account''),
      EncodeTransferTx =
        (\<lambda>f t tok n a ty. Inr [of_nat f, of_nat t, of_nat tok, of_nat n, of_nat a, of_nat ty]),
      ApplyTx = toy_ApplyTx,
      GetDepositNodeAndSiblings = toy_GetDepositNodeAndSiblings,
      TX_TRANSFER_TYPE = 1,
      BATCH_COMMITTED = 1\<rparr>"

definition toy_params :: Params where
  "toy_params =
     \<lparr>MaxDepositSubTreeHeight = 1, FinalisationTime = 10, ParamsStakeAmount = 32,
      DepositSubTreeHeight = 0, DepositSubTreeRoot = []\<rparr>"

definition toy_genesis :: "UserAccount list" where
  "toy_genesis =
     [NewUserAccount toy_core 1 STATUS_ACTIVE [] (Some [1, 100, 0, 1]),
      NewUserAccount toy_core 2 STATUS_ACTIVE [] (Some [2, 0, 0, 1])]"

definition toy_db :: DB where
  "toy_db =
     snd (InitBalancesTree toy_core 1 toy_genesis
            \<lparr>accounts = [], batches = [], params = Some toy_params, db_fault = False\<rparr>)"

text \<open>A tree of depth 2 with four accounts, built by \<open>InitBalancesTree\<close>, and the store
  after a transfer of 30 from account 1 to account 2 in it.\<close>

definition toy_genesis4 :: "UserAccount list" where
  "toy_genesis4 =
     [NewUserAccount toy_core 1 STATUS_ACTIVE [] (Some [1, 100, 0, 1]),
      NewUserAccount toy_core 2 STATUS_ACTIVE [] (Some [2, 0, 0, 1]),
      NewUserAccount toy_core 3 STATUS_ACTIVE [] (Some [3, 0, 0, 1]),
      NewUserAccount toy_core 4 STATUS_ACTIVE [] (Some [4, 0, 0, 1])]"

definition toy_db4 :: DB where
  "toy_db4 =
     snd (InitBalancesTree toy_core 2 toy_genesis4
            \<lparr>accounts = [], batches = [], params = Some toy_params, db_fault = False\<rparr>)"

definition toy_db4_after :: DB where
  "toy_db4_after = snd (ApplyTxsFromBatch toy_env [[1, 2, 30, 9]] toy_db4)"

text \<open>The two leaf updates that this transfer makes, as a run of updates.\<close>

definition toy_updates :: "UserAccount list" where
  "toy_updates =
     [NewUserAccount toy_core 1 STATUS_ACTIVE ''00'' (Some [1, 70, 1, 1]),
      NewUserAccount toy_core 2 STATUS_ACTIVE ''01'' (Some [2, 30, 0, 1])]"

definition toy_syncer :: Syncer where
  "toy_syncer = \<lparr>DBInstance = toy_db, fired = [], logged_errors = []\<rparr>"

text \<open>The same syncer with batch 1 already in the ledger, Committed, with the state
  root \<open>0xaa\<close>.\<close>

definition toy_committed_syncer :: Syncer where
  "toy_committed_syncer =
     toy_syncer\<lparr>DBInstance :=
       toy_db\<lparr>batches :=
         [\<lparr>BatchID = 1, StateRoot = ''0xaa'', TxRoot = ''0x07'',
           TransactionsIncluded = [1, 2, 30, 9], Committer = ''0xc0'', StakeAmount = 32,
           FinalisesOn = 10, BatchStatus = BATCH_COMMITTED toy_env\<rparr>]\<rparr>\<rparr>"



text \<open>
  The same hashes, but with a pair hash that fails on a left hash of more than five
  characters that holds the character \<open>M\<close>; the tree of depth 2 built with them by
  \<open>InitBalancesTree\<close>; and that store after \<open>UpdateAccount\<close> has been given the leaf
  \<open>00\<close> with a balance of 77 (the character \<open>M\<close>), which fails at the pair hash of the
  second level.
\<close>

definition fragile_core :: core_env where
  "fragile_core =
     toy_core\<lparr>GetParent :=
       (\<lambda>l r. if CHR ''M'' \<in> set l \<and> 5 < length l then Inl ''bad hash''
              else GetParent toy_core l r)\<rparr>"

definition fragile_db4 :: DB where
  "fragile_db4 =
     snd (InitBalancesTree fragile_core 2 toy_genesis4
            \<lparr>accounts = [], batches = [], params = Some toy_params, db_fault = False\<rparr>)"

definition fragile_update :: UserAccount where
  "fragile_update = NewUserAccount fragile_core 1 STATUS_ACTIVE ''00'' (Some [1, 77, 0, 1])"

definition fragile_db4_failed :: DB where
  "fragile_db4_failed = snd (UpdateAccount fragile_core fragile_update fragile_db4)"

section \<open>Properties of the helpers\<close>

subsection \<open>UintTo2Byte\<close>

lemma unat_low_byte: "unat (ucast a :: byte) = unat a mod 256" for a :: uint32
  by (simp add: unsigned_ucast_eq take_bit_eq_mod)

lemma unat_drop_bit_8: "unat (drop_bit 8 a) = unat a div 256" for a :: uint32
  by (subst unat_drop_bit_eq) (simp add: drop_bit_eq_div)

lemma UintTo2Byte_mask: "UintTo2Byte (a AND 0xFFFF) = UintTo2Byte a"
proof -
  have m: "a AND 0xFFFF = take_bit 16 a"
    by (simp add: take_bit_eq_mask mask_eq_exp_minus_1)
  have "(ucast (take_bit 16 a) :: byte) = ucast a"
    by (rule bit_word_eqI) (simp add: bit_simps)
  moreover have "(ucast (drop_bit 8 (take_bit 16 a)) :: byte) = ucast (drop_bit 8 a)"
    by (rule bit_word_eqI) (simp add: bit_simps)
  ultimately show ?thesis
    unfolding UintTo2Byte_def UintToByte_def m by simp
qed

text \<open>
  Claim C10. \<open>UintTo2Byte a\<close> is the first two bytes of the little-endian encoding of
  \<open>a\<close>, that is the low byte and the second byte; read back little-endian they give
  \<open>a mod 2^16\<close>. The upper 16 bits are dropped and nothing is reported: the result only
  depends on \<open>a AND 0xFFFF\<close>, and \<open>65536\<close> encodes as \<open>0\<close> does.
\<close>

theorem UintTo2Byte_truncates:
  "UintTo2Byte a = take 2 (UintToByte a)
   \<and> UintTo2Byte a = [ucast a, ucast (drop_bit 8 a)]
   \<and> le_decode (UintTo2Byte a) = unat a mod 2 ^ 16
   \<and> UintTo2Byte (a AND 0xFFFF) = UintTo2Byte a
   \<and> UintTo2Byte 65536 = UintTo2Byte 0"
proof -
  have "unat a mod 65536 = unat a mod 256 + 256 * ((unat a div 256) mod 256)"
    using mod_mult2_eq [of "unat a" 256 256] by simp
  then have "le_decode (UintTo2Byte a) = unat a mod 2 ^ 16"
    by (simp add: UintTo2Byte_def UintToByte_def unat_low_byte unat_drop_bit_8)
  moreover have "UintTo2Byte 65536 = UintTo2Byte 0"
    by (simp add: UintTo2Byte_def UintToByte_def)
  ultimately show ?thesis
    by (simp add: UintTo2Byte_mask) (simp add: UintTo2Byte_def UintToByte_def)
qed

subsection \<open>ExtractBit\<close>

lemma smod_sdiv_int:
  fixes a m d :: int
  shows "(a smod m) sdiv d = sgn a * sgn d * (\<bar>a\<bar> mod \<bar>m\<bar> div \<bar>d\<bar>)"
proof -
  define x where "x = \<bar>a\<bar> mod \<bar>m\<bar>"
  have sm: "a smod m = sgn a * x"
    by (simp add: signed_modulo_int_def x_def)
  have x0: "0 \<le> x"
    by (cases "m = 0") (simp_all add: x_def)
  show ?thesis
  proof (cases "x = 0 \<or> a = 0")
    case True
    then have "a smod m = 0" using sm by auto
    moreover from True have "x = 0" by (auto simp: x_def)
    ultimately show ?thesis
      by (simp add: signed_divide_int_def x_def [symmetric])
  next
    case False
    with x0 have "0 < x" "a \<noteq> 0" by simp_all
    then have "sgn (sgn a * x) = sgn a" "\<bar>sgn a * x\<bar> = x"
      by (simp_all add: sgn_mult abs_mult)
    then show ?thesis
      by (simp add: signed_divide_int_def sm x_def [symmetric])
  qed
qed

lemma digit_of_mod:
  fixes a d :: int
  assumes "0 < d"
  shows "a mod (d * 10) div d = a div d mod 10"
proof -
  have "a mod (d * 10) = d * (a div d mod 10) + a mod d"
    by (rule zmod_zmult2_eq) simp
  moreover have "(d * (a div d mod 10) + a mod d) div d = a div d mod 10"
    using assms by simp
  ultimately show ?thesis by simp
qed

lemma pow10_split: "1 \<le> place \<Longrightarrow> (10::int) ^ nat place = 10 ^ nat (place - 1) * 10"
  by (simp add: nat_diff_distrib power_eq_if)

lemma small_div_zero:
  fixes x :: int
  assumes "0 \<le> x" "x < 10 ^ 19" "19 \<le> n"
  shows "x div 10 ^ n = 0"
proof -
  have "(10::int) ^ 19 \<le> 10 ^ n"
    using assms(3) by (intro power_increasing) simp_all
  with assms show ?thesis
    by (intro div_pos_pos_trivial) simp_all
qed

text \<open>
  Claim C8, as stated, at a negative number: Go's truncating \<open>%\<close> and \<open>/\<close> make
  \<open>ExtractBit(-123, 2)\<close> the value \<open>-2\<close>, which is neither
  \<open>((-123) mod 10^2) div 10^1 = 7\<close> nor the decimal digit \<open>2\<close>.
\<close>

theorem ExtractBit_negative_counterexample:
  "ExtractBit (- 123) 2 = Inr (- 2)
   \<and> ExtractBit (- 123) 2 \<noteq> Inr ((- 123) mod 10 ^ 2 div 10 ^ (2 - 1))
   \<and> ExtractBit (- 123) 2 \<noteq> Inr 2"
  by (simp add: ExtractBit_def pow10_int_def Let_def signed_divide_int_def
      signed_modulo_int_def)

text \<open>
  Claim C8, amended. For every \<open>int\<close> \<open>num\<close> and every \<open>place \<ge> 1\<close>,
  \<open>ExtractBit num place\<close> is the decimal digit of \<open>|num|\<close> at that place, counted from
  the right from 1, with the sign of \<open>num\<close>: the digit for \<open>num \<ge> 0\<close>, where it is
  \<open>(num mod 10^place) div 10^(place-1)\<close>, and the negated digit for \<open>num < 0\<close>. The one
  exception is the least \<open>int\<close> at place 19, where the result is 0 and the digit is 9.
  For \<open>place \<le> 0\<close> the function panics with a division by zero. The function works on
  decimal digits, not on bits.
\<close>

theorem ExtractBit_decimal_digit:
  assumes "- (2 ^ 63) \<le> num" and "num < 2 ^ 63"
  shows "ExtractBit num place =
           (if place \<le> 0 then Inl DivideByZero
            else if num = - (2 ^ 63) \<and> place = 19 then Inr 0
            else Inr (sgn num * (\<bar>num\<bar> div 10 ^ nat (place - 1) mod 10)))
         \<and> (0 \<le> num \<and> 1 \<le> place \<longrightarrow>
              ExtractBit num place = Inr (num mod 10 ^ nat place div 10 ^ nat (place - 1)))"
proof -
  have ab: "0 \<le> \<bar>num\<bar>" "\<bar>num\<bar> \<le> 2 ^ 63"
    using assms by simp_all
  have main: "ExtractBit num place =
           (if place \<le> 0 then Inl DivideByZero
            else if num = - (2 ^ 63) \<and> place = 19 then Inr 0
            else Inr (sgn num * (\<bar>num\<bar> div 10 ^ nat (place - 1) mod 10)))"
  proof -
    consider "place < 0" | "place = 0" | "1 \<le> place" "place \<le> 18" | "place = 19" | "20 \<le> place"
      by linarith
    then show ?thesis
    proof cases
      case 1
      then show ?thesis by (simp add: ExtractBit_def pow10_int_def)
    next
      case 2
      then show ?thesis by (simp add: ExtractBit_def pow10_int_def)
    next
      case 3
      have "\<bar>num\<bar> mod 10 ^ nat place div 10 ^ nat (place - 1)
          = \<bar>num\<bar> div 10 ^ nat (place - 1) mod 10"
        unfolding pow10_split [OF 3(1)] by (rule digit_of_mod) simp
      with 3 show ?thesis
        by (simp add: ExtractBit_def pow10_int_def Let_def smod_sdiv_int)
    next
      case 4
      have e: "ExtractBit num place = Inr (sgn num * (\<bar>num\<bar> mod 2 ^ 63 div 10 ^ 18))"
        using 4 by (simp add: ExtractBit_def pow10_int_def Let_def smod_sdiv_int)
      show ?thesis
      proof (cases "num = - (2 ^ 63)")
        case True
        with e 4 show ?thesis by simp
      next
        case False
        with assms have lt: "\<bar>num\<bar> < 2 ^ 63" by simp
        then have m: "\<bar>num\<bar> mod 2 ^ 63 = \<bar>num\<bar>" by simp
        have "\<bar>num\<bar> div 10 ^ 18 \<le> 2 ^ 63 div 10 ^ 18"
          using lt by (intro zdiv_mono1) simp_all
        then have "\<bar>num\<bar> div 10 ^ 18 < 10"
          by simp
        then have "\<bar>num\<bar> div 10 ^ 18 mod 10 = \<bar>num\<bar> div 10 ^ 18"
          by (simp add: pos_imp_zdiv_nonneg_iff)
        with e m False 4 show ?thesis by simp
      qed
    next
      case 5
      have "\<bar>num\<bar> mod 2 ^ 63 div 2 ^ 63 = (0::int)"
        by (intro div_pos_pos_trivial) simp_all
      then have e: "ExtractBit num place = Inr 0"
        using 5 by (simp add: ExtractBit_def pow10_int_def Let_def smod_sdiv_int)
      have "\<bar>num\<bar> div 10 ^ nat (place - 1) = 0"
        using ab 5 by (intro small_div_zero) simp_all
      with e 5 show ?thesis by simp
    qed
  qed
  have "ExtractBit num place = Inr (num mod 10 ^ nat place div 10 ^ nat (place - 1))"
    if "0 \<le> num" "1 \<le> place"
  proof -
    have "num mod 10 ^ nat place div 10 ^ nat (place - 1) = num div 10 ^ nat (place - 1) mod 10"
      unfolding pow10_split [OF that(2)] by (rule digit_of_mod) simp
    moreover have "sgn num * (num div 10 ^ nat (place - 1) mod 10)
        = num div 10 ^ nat (place - 1) mod 10"
      using that(1) by (cases "num = 0") simp_all
    ultimately show ?thesis
      using main that by simp
  qed
  with main show ?thesis by blast
qed

theorem ExtractBit_decimal_digit_witness:
  "ExtractBit 1905 3 = Inr 9 \<and> ExtractBit 1011 2 = Inr 1 \<and> ExtractBit 1011 3 = Inr 0
   \<and> ExtractBit (- 1905) 3 = Inr (- 9)
   \<and> ExtractBit 1234567890123456789 19 = Inr 1
   \<and> ExtractBit 1234567890123456789 20 = Inr 0
   \<and> ExtractBit 1905 0 = Inl DivideByZero"
  using ExtractBit_decimal_digit [of 1905 3] ExtractBit_decimal_digit [of 1011 2]
    ExtractBit_decimal_digit [of 1011 3] ExtractBit_decimal_digit [of "- 1905" 3]
    ExtractBit_decimal_digit [of 1234567890123456789 19]
    ExtractBit_decimal_digit [of 1234567890123456789 20]
    ExtractBit_decimal_digit [of 1905 0]
  by simp

subsection \<open>EventByID\<close>

lemma EventByID_loop_None:
  "EventByID_loop ID evs s = None \<longleftrightarrow> (\<forall>e \<in> snd ` set evs. ID e \<noteq> s)"
  by (induction ID evs s rule: EventByID_loop.induct) auto

lemma EventByID_loop_Some:
  "EventByID_loop ID evs s = Some e \<Longrightarrow>
     \<exists>pre n post. evs = pre @ (n, e) # post \<and> ID e = s \<and> (\<forall>x \<in> snd ` set pre. ID x \<noteq> s)"
proof (induction ID evs s rule: EventByID_loop.induct)
  case (1 ID sigdata)
  then show ?case by simp
next
  case (2 ID name event rest sigdata)
  show ?case
  proof (cases "ID event = sigdata")
    case True
    with 2 have "e = event" by simp
    with True have "(name, event) # rest = [] @ (name, e) # rest \<and> ID e = sigdata
        \<and> (\<forall>x \<in> snd ` set []. ID x \<noteq> sigdata)" by simp
    then show ?thesis by blast
  next
    case False
    with 2 obtain pre n post where
      "rest = pre @ (n, e) # post" "ID e = sigdata" "\<forall>x \<in> snd ` set pre. ID x \<noteq> sigdata"
      by auto
    with False have "(name, event) # rest = ((name, event) # pre) @ (n, e) # post
        \<and> ID e = sigdata
        \<and> (\<forall>x \<in> snd ` set ((name, event) # pre). ID x \<noteq> sigdata)" by simp
    then show ?thesis by blast
  qed
qed

text \<open>
  Claim C9, as stated, at a nil ABI pointer: \<open>EventByID\<close> panics, whatever the
  signature bytes; it does not return nil.
\<close>

theorem EventByID_nil_abi_counterexample:
  "EventByID (\<lambda>n::nat. [of_nat n]) None [2] = Inl NilDereference
   \<and> EventByID (\<lambda>n::nat. [of_nat n]) None [2] \<noteq> Inr None"
  by (simp add: EventByID_def)

text \<open>
  Claim C9, amended. On an ABI pointer that is not nil \<open>EventByID\<close> always returns:
  either nil (\<open>None\<close>), and then no event of the ABI has the given ID bytes, or an event
  with those ID bytes that is the first such event in the order the loop visits the
  map. On the nil pointer it panics.
\<close>

theorem EventByID_first_match_or_nil:
  "(case EventByID ID (Some abi) s of
      Inl f \<Rightarrow> False
    | Inr None \<Rightarrow> \<forall>e \<in> snd ` set (Events abi). ID e \<noteq> s
    | Inr (Some e) \<Rightarrow> \<exists>pre n post. Events abi = pre @ (n, e) # post \<and> ID e = s
                   \<and> (\<forall>x \<in> snd ` set pre. ID x \<noteq> s))
   \<and> EventByID ID None s = Inl NilDereference"
proof (cases "EventByID_loop ID (Events abi) s")
  case None
  then have "\<forall>e \<in> snd ` set (Events abi). ID e \<noteq> s"
    by (simp add: EventByID_loop_None)
  with None show ?thesis
    by (simp add: EventByID_def)
next
  case (Some e)
  from EventByID_loop_Some [OF this] Some show ?thesis
    by (simp add: EventByID_def)
qed

theorem EventByID_first_match_or_nil_witness:
  "EventByID (\<lambda>n::nat. [of_nat n])
      (Some \<lparr>Events = [(''DepositQueued'', 1), (''NewBatch'', 2), (''Again'', 2)]\<rparr>) [2]
     = Inr (Some 2)
   \<and> EventByID (\<lambda>n::nat. [of_nat n])
      (Some \<lparr>Events = [(''DepositQueued'', 1), (''NewBatch'', 2)]\<rparr>) [3] = Inr None"
  using EventByID_first_match_or_nil [where ID = "\<lambda>n::nat. [of_nat n]"
      and abi = "\<lparr>Events = [(''DepositQueued'', 1), (''NewBatch'', 2), (''Again'', 2)]\<rparr>"
      and s = "[2]"]
    EventByID_first_match_or_nil [where ID = "\<lambda>n::nat. [of_nat n]"
      and abi = "\<lparr>Events = [(''DepositQueued'', 1), (''NewBatch'', 2)]\<rparr>" and s = "[3]"]
  by (simp add: EventByID_def)

section \<open>Writes to the account table leave the rest of the database alone\<close>















section \<open>InitBalancesTree\<close>

lemma InitBalancesTree_paths_not_dim:
  "InitBalancesTree_paths env p accs \<noteq> Inl DimensionMismatch"
  by (induction accs arbitrary: p) (auto split: sum.splits)

lemma InitBalancesTree_parents_not_dim:
  "InitBalancesTree_parents env accs \<noteq> Inl DimensionMismatch"
  by (induction env accs rule: InitBalancesTree_parents.induct) (auto split: sum.splits)

lemma InitBalancesTree_levels_not_dim:
  "InitBalancesTree_levels env n db \<noteq> (Inl DimensionMismatch, db')"
proof (induction n arbitrary: db)
  case 0
  then show ?case by simp
next
  case (Suc n)
  show ?case
    using Suc InitBalancesTree_parents_not_dim [of env]
    by (auto simp: GetAccountsAtDepth_def gorm_Find_all_def split: sum.splits prod.splits)
qed

lemma InsertCoordinatorAccounts_not_dim:
  "InsertCoordinatorAccounts env acc depth db \<noteq> (Inl DimensionMismatch, db')"
  by (simp add: InsertCoordinatorAccounts_def gorm_Create_def Let_def)

lemma exp2_int_eq: "length g < 2 ^ 63 \<Longrightarrow> exp2_int depth = int (length g) \<longleftrightarrow> length g = 2 ^ depth"
proof (cases "depth < 63")
  case True
  then show ?thesis 
    by (simp add: exp2_int_def) (metis of_nat_eq_iff of_nat_numeral of_nat_power)
next
  case False
  assume "length g < 2 ^ 63"
  moreover from False have "(2::nat) ^ 63 \<le> 2 ^ depth"
    by (intro power_increasing) simp_all
  ultimately have "length g \<noteq> 2 ^ depth" by linarith
  moreover have "- (2 ^ 63) < (0::int)" by simp
  then have "- (2 ^ 63) \<noteq> int (length g)" by linarith
  ultimately show ?thesis using False by (simp add: exp2_int_def)
qed

text \<open>
  Claim C5. For a list of genesis accounts (a Go slice, so shorter than \<open>2^63\<close>),
  \<open>InitBalancesTree\<close> returns the dimension error if and only if the number of
  accounts differs from \<open>2^depth\<close>, and then the database is untouched: no leaf got a
  path and nothing was written.
\<close>

theorem InitBalancesTree_dimension_mismatch_iff:
  assumes "length g < 2 ^ 63"
  shows "(fst (InitBalancesTree env depth g db) = Inl DimensionMismatch \<longleftrightarrow> length g \<noteq> 2 ^ depth)
       \<and> (if length g \<noteq> 2 ^ depth then snd (InitBalancesTree env depth g db) = db else True)"
proof (cases "length g = 2 ^ depth")
  case True
  have e: "exp2_int depth = int (length g)"
    using exp2_int_eq [OF assms, of depth] True by blast
  have "InitBalancesTree env depth g db \<noteq> (Inl DimensionMismatch, db')" for db'
    using InsertCoordinatorAccounts_not_dim [of env _ depth db]
      InitBalancesTree_paths_not_dim [of env] InitBalancesTree_levels_not_dim [of env depth]
    by (auto simp: InitBalancesTree_def e split: list.splits prod.splits sum.splits)
  then have "fst (InitBalancesTree env depth g db) \<noteq> Inl DimensionMismatch"
    by (metis prod.collapse)
  with True show ?thesis by simp
next
  case False
  have "exp2_int depth \<noteq> int (length g)"
    using exp2_int_eq [OF assms, of depth] False by blast
  with False show ?thesis
    by (simp add: InitBalancesTree_def)
qed

theorem InitBalancesTree_dimension_mismatch_iff_witness:
  "fst (InitBalancesTree toy_core 1 toy_genesis toy_db) \<noteq> Inl DimensionMismatch
   \<and> fst (InitBalancesTree toy_core 2 toy_genesis toy_db) = Inl DimensionMismatch
   \<and> snd (InitBalancesTree toy_core 2 toy_genesis toy_db) = toy_db
   \<and> fst (InitBalancesTree toy_core 64 toy_genesis toy_db) = Inl DimensionMismatch"
  using InitBalancesTree_dimension_mismatch_iff [of toy_genesis toy_core 1 toy_db]
    InitBalancesTree_dimension_mismatch_iff [of toy_genesis toy_core 2 toy_db]
    InitBalancesTree_dimension_mismatch_iff [of toy_genesis toy_core 64 toy_db]
  by (simp add: toy_genesis_def)

section \<open>DeletePendingAccount\<close>

lemma DeletePendingAccount_eq:
  "DeletePendingAccount ID db =
     (if db_fault db then (Inl RecordNotFound, db)
      else (Inr (), db\<lparr>accounts :=
              filter (\<lambda>r. \<not> (AccountID r = ID \<and> Status r = STATUS_PENDING)) (accounts db)\<rparr>))"
  by (simp add: DeletePendingAccount_def gorm_Delete_def)

text \<open>
  Claim C7, at a table with no Pending row of the id: the tree of the small instance has
  the Active accounts 1 and 2 only. \<open>DeletePendingAccount 7\<close> and
  \<open>DeletePendingAccount 1\<close> return nil and leave the table as it is; no not-found error
  is returned.
\<close>

theorem DeletePendingAccount_absent_returns_nil:
  "DeletePendingAccount 7 toy_db = (Inr (), toy_db)
   \<and> DeletePendingAccount 1 toy_db = (Inr (), toy_db)
   \<and> filter (\<lambda>r. Status r = STATUS_PENDING) (accounts toy_db) = []"
  by code_simp

section \<open>processDepositLeafMerged\<close>

lemma SendDepositFinalisationTx_fired:
  "fired (SendDepositFinalisationTx env s) \<noteq> fired s \<longleftrightarrow>
     (\<exists>p r. GetParams (DBInstance s) = Inr p \<and> GetDepositNodeAndSiblings env (DBInstance s) = Inr r)"
  by (auto simp: SendDepositFinalisationTx_def split: sum.splits prod.splits)

text \<open>
  Claim C6, as stated, on the small instance with an account table that holds no node
  for the deposit subtree: the merge brings the accumulator to height 1, which is
  \<open>MaxDepositSubTreeHeight\<close>, the handler returns, and no finalisation request has been
  handed to the collaborator, because \<^verbatim>\<open>SendDepositFinalisationTx\<close> returns early when
  \<^verbatim>\<open>GetDepositNodeAndSiblings\<close> fails.
\<close>

theorem processDepositLeafMerged_no_request_counterexample:
  "fst (OnDepositLeafMerge [CHR 0x01] [CHR 0x02] [CHR 0x03] (toy_db\<lparr>accounts := []\<rparr>))
     = Inr (MaxDepositSubTreeHeight toy_params)
   \<and> processDepositLeafMerged toy_env \<lparr>TxHash = ''0xd1'', LogData = [1, 2, 3]\<rparr>
        (toy_syncer\<lparr>DBInstance := toy_db\<lparr>accounts := []\<rparr>\<rparr>)
     = (Done, toy_syncer\<lparr>DBInstance :=
          snd (OnDepositLeafMerge [CHR 0x01] [CHR 0x02] [CHR 0x03] (toy_db\<lparr>accounts := []\<rparr>))\<rparr>)
   \<and> fired toy_syncer = []"
  by code_simp

text \<open>
  Claim C6, amended. A \<open>DepositLeafMerged\<close> event makes the syncer hand a finalisation
  request to the collaborator if and only if the event decodes, the merge succeeds, the
  parameters can be read, the height after the merge equals \<open>MaxDepositSubTreeHeight\<close>
  and \<^verbatim>\<open>GetDepositNodeAndSiblings\<close> succeeds; the request then carries that node, its
  siblings and \<open>MaxDepositSubTreeHeight\<close>.
\<close>

theorem processDepositLeafMerged_fires_iff:
  "fired (snd (processDepositLeafMerged env vLog s)) \<noteq> fired s \<longleftrightarrow>
     (\<exists>event newheight db1 p r.
        UnpackDepositLeafMerged env vLog = Inr event
        \<and> OnDepositLeafMerge (Left event) (Right event) (NewRoot event) (DBInstance s)
            = (Inr newheight, db1)
        \<and> GetParams db1 = Inr p
        \<and> newheight = MaxDepositSubTreeHeight p
        \<and> GetDepositNodeAndSiblings env db1 = Inr r
        \<and> fired (snd (processDepositLeafMerged env vLog s))
            = fired s @ [(fst r, snd r, MaxDepositSubTreeHeight p)])"
proof (cases "UnpackDepositLeafMerged env vLog")
  case (Inl m)
  then show ?thesis by (simp add: processDepositLeafMerged_def)
next
  case (Inr event)
  obtain res db1 where m: "OnDepositLeafMerge (Left event) (Right event) (NewRoot event)
      (DBInstance s) = (res, db1)"
    by (cases "OnDepositLeafMerge (Left event) (Right event) (NewRoot event) (DBInstance s)")
  show ?thesis
  proof (cases res)
    case (Inl e)
    with Inr m show ?thesis by (simp add: processDepositLeafMerged_def)
  next
    case h: (Inr newheight)
    show ?thesis
    proof (cases "GetParams db1")
      case (Inl e)
      with Inr m h show ?thesis by (simp add: processDepositLeafMerged_def)
    next
      case p: (Inr p)
      show ?thesis
      proof (cases "newheight = MaxDepositSubTreeHeight p")
        case False
        with Inr m h p show ?thesis by (simp add: processDepositLeafMerged_def)
      next
        case True
        show ?thesis
        proof (cases "GetDepositNodeAndSiblings env db1")
          case (Inl msg)
          with Inr m h p True show ?thesis
            by (simp add: processDepositLeafMerged_def SendDepositFinalisationTx_def)
        next
          case r: (Inr r)
          with Inr m h p True show ?thesis
            by (simp add: processDepositLeafMerged_def SendDepositFinalisationTx_def
                split: prod.splits)
        qed
      qed
    qed
  qed
qed

theorem processDepositLeafMerged_fires_iff_witness:
  "fired (snd (processDepositLeafMerged toy_env \<lparr>TxHash = ''0xd1'', LogData = [1, 2, 3]\<rparr>
                 toy_syncer)) \<noteq> fired toy_syncer
   \<and> length (fired (snd (processDepositLeafMerged toy_env
                 \<lparr>TxHash = ''0xd1'', LogData = [1, 2, 3]\<rparr> toy_syncer))) = 1"
proof -
  have "fired (snd (processDepositLeafMerged toy_env \<lparr>TxHash = ''0xd1'', LogData = [1, 2, 3]\<rparr>
                 toy_syncer)) \<noteq> fired toy_syncer"
    by code_simp
  with processDepositLeafMerged_fires_iff [of toy_env "\<lparr>TxHash = ''0xd1'', LogData = [1, 2, 3]\<rparr>"
      toy_syncer]
  show ?thesis
    by (auto simp: toy_syncer_def)
qed

section \<open>processNewBatch\<close>

lemma GetParams_same_ledger: "same_ledger db db' \<Longrightarrow> GetParams db' = GetParams db"
  by (simp add: GetParams_def same_ledger_def)











lemma processNewBatch_found_committed:
  assumes "UnpackNewBatch env vLog = Inr event"
    and "GetBatchByIndex (DBInstance s) (Index event) = Inr batch"
    and "BatchStatus batch = BATCH_COMMITTED env"
    and "fst (processNewBatch env vLog s) = Done"
  shows "processNewBatch env vLog s = (Done, s)"
  using assms
  by (auto simp: processNewBatch_def split: sum.splits if_splits)









text \<open>
  Claim C2, at a mismatch. Batch 1 is in the ledger, Committed, with state root
  \<open>0xaa\<close>; the event for batch 1 reports another root. \<open>processNewBatch\<close> returns
  without a panic and without a logged error, and the state is what it was: the
  mismatch is not detected.
\<close>

theorem processNewBatch_committed_mismatch_silent:
  "(case UnpackNewBatch toy_env \<lparr>TxHash = ''0xb1'', LogData = [1, 7, 8]\<rparr> of
      Inl m \<Rightarrow> False
    | Inr event \<Rightarrow>
        (case GetBatchByIndex (DBInstance toy_committed_syncer) (Index event) of
           Inl e \<Rightarrow> False
         | Inr batch \<Rightarrow>
             BatchStatus batch = BATCH_COMMITTED toy_env
             \<and> StateRoot batch \<noteq> UpdatedRoot event))
   \<and> processNewBatch toy_env \<lparr>TxHash = ''0xb1'', LogData = [1, 7, 8]\<rparr> toy_committed_syncer
       = (Done, toy_committed_syncer)
   \<and> logged_errors toy_committed_syncer = []"
  by code_simp

section \<open>ApplyTxsFromBatch\<close>

lemma ApplyTxsFromBatch_loop_append:
  "ApplyTxsFromBatch_loop env d (xs @ ys) db =
     (case ApplyTxsFromBatch_loop env d xs db of
        (Inl e, db1) \<Rightarrow> (Inl e, db1)
      | (Inr u, db1) \<Rightarrow> ApplyTxsFromBatch_loop env d ys db1)"
  by (induction xs arbitrary: db) (auto split: prod.splits sum.splits)

lemma ApplyTxsFromBatch_loop_error:
  "ApplyTxsFromBatch_loop env d xs db = (Inl e, db') \<Longrightarrow>
     \<exists>k dbk. k < length xs
        \<and> ApplyTxsFromBatch_loop env d (take k xs) db = (Inr (), dbk)
        \<and> ApplyTxsFromBatch_step env d (xs ! k) dbk = (Inl e, db')"
proof (induction xs arbitrary: db)
  case Nil
  then show ?case by simp
next
  case (Cons i rest)
  obtain r db1 where st: "ApplyTxsFromBatch_step env d i db = (r, db1)"
    by (cases "ApplyTxsFromBatch_step env d i db")
  show ?case
  proof (cases r)
    case (Inl e1)
    with Cons.prems st have "e1 = e" "db1 = db'"
      by simp_all
    with st Inl have "0 < length (i # rest)
        \<and> ApplyTxsFromBatch_loop env d (take 0 (i # rest)) db = (Inr (), db)
        \<and> ApplyTxsFromBatch_step env d ((i # rest) ! 0) db = (Inl e, db')"
      by simp
    then show ?thesis by blast
  next
    case (Inr u)
    with Cons.prems st have "ApplyTxsFromBatch_loop env d rest db1 = (Inl e, db')"
      by simp
    from Cons.IH [OF this] obtain k dbk where
      k: "k < length rest" "ApplyTxsFromBatch_loop env d (take k rest) db1 = (Inr (), dbk)"
        "ApplyTxsFromBatch_step env d (rest ! k) dbk = (Inl e, db')"
      by blast
    with st Inr have "Suc k < length (i # rest)
        \<and> ApplyTxsFromBatch_loop env d (take (Suc k) (i # rest)) db = (Inr (), dbk)
        \<and> ApplyTxsFromBatch_step env d ((i # rest) ! Suc k) dbk = (Inl e, db')"
      by simp
    then show ?thesis by blast
  qed
qed

text \<open>
  Claim C3, as stated, on the small instance: a batch of two transfers, 30 from account
  1 to account 2 and then 50 from account 2 to account 1. The second fails (account 2
  holds 30), \<open>ApplyTxsFromBatch\<close> returns its error, and the store keeps the first
  transfer: the balances are 70 and 30, not 100 and 0, and the root hash has changed.
\<close>

theorem ApplyTxsFromBatch_partial_counterexample:
  "fst (ApplyTxsFromBatch toy_env [[1, 2, 30, 9], [2, 1, 50, 9]] toy_db)
     = Inl (Other ''insufficient balance'')
   \<and> map Data (accounts toy_db) = [Some [1, 100, 0, 1], Some [2, 0, 0, 1], Some [48]]
   \<and> map Data (accounts (snd (ApplyTxsFromBatch toy_env [[1, 2, 30, 9], [2, 1, 50, 9]] toy_db)))
     = [Some [1, 70, 1, 1], Some [2, 30, 0, 1], Some [48]]
   \<and> snd (ApplyTxsFromBatch toy_env [[1, 2, 30, 9], [2, 1, 50, 9]] toy_db) \<noteq> toy_db
   \<and> GetRoot (snd (ApplyTxsFromBatch toy_env [[1, 2, 30, 9], [2, 1, 50, 9]] toy_db))
     \<noteq> GetRoot toy_db"
  by code_simp

text \<open>
  What the missing rollback does to redelivery, on the same batch delivered as batch 2:
  the first delivery panics with the first transfer stored (balances 70 and 30); the
  second delivery applies the first transfer again, and now the second transfer goes
  through as well (balances 90 and 10), and the batch is recorded.
\<close>

lemma processNewBatch_redelivery_after_panic:
  "fst (processNewBatch toy_env \<lparr>TxHash = ''0xb2'', LogData = [2, 7, 8]\<rparr> toy_syncer)
     = Panicked (Other ''insufficient balance'')
   \<and> map Data (accounts (DBInstance
        (snd (processNewBatch toy_env \<lparr>TxHash = ''0xb2'', LogData = [2, 7, 8]\<rparr> toy_syncer))))
     = [Some [1, 70, 1, 1], Some [2, 30, 0, 1], Some [48]]
   \<and> fst (processNewBatch toy_env \<lparr>TxHash = ''0xb2'', LogData = [2, 7, 8]\<rparr>
        (snd (processNewBatch toy_env \<lparr>TxHash = ''0xb2'', LogData = [2, 7, 8]\<rparr> toy_syncer)))
     = Done
   \<and> map Data (accounts (DBInstance
        (snd (processNewBatch toy_env \<lparr>TxHash = ''0xb2'', LogData = [2, 7, 8]\<rparr>
          (snd (processNewBatch toy_env \<lparr>TxHash = ''0xb2'', LogData = [2, 7, 8]\<rparr>
            toy_syncer))))))
     = [Some [1, 90, 2, 1], Some [2, 10, 1, 1], Some [48]]"
  by code_simp

text \<open>
  Claim C3, amended. \<open>ApplyTxsFromBatch\<close> stops at the first failure and returns its
  error. If the transactions cannot be decompressed the store is unchanged. Otherwise
  the failure is that of some transaction \<open>k\<close>: the transactions before \<open>k\<close> have been
  applied and their leaf updates stay in the store (there is no rollback), the store
  returned is the one transaction \<open>k\<close> left when it failed, and no later transaction
  has been applied.
\<close>

theorem ApplyTxsFromBatch_error_keeps_prefix:
  assumes "ApplyTxsFromBatch env txs db = (Inl e, db')"
  shows "(\<exists>m. DecompressTransferTxs env txs = Inl m \<and> e = Other m \<and> db' = db)
       \<or> (\<exists>d k dbk. DecompressTransferTxs env txs = Inr d \<and> k < length txs
             \<and> ApplyTxsFromBatch_loop env d [0..<k] db = (Inr (), dbk)
             \<and> ApplyTxsFromBatch_step env d k dbk = (Inl e, db'))"
proof (cases "DecompressTransferTxs env txs")
  case (Inl m)
  with assms show ?thesis
    by (auto simp: ApplyTxsFromBatch_def split: if_splits)
next
  case (Inr d)
  with assms have "ApplyTxsFromBatch_loop env d [0..<length txs] db = (Inl e, db')"
    by (auto simp: ApplyTxsFromBatch_def split: if_splits)
  from ApplyTxsFromBatch_loop_error [OF this] obtain k dbk where
    k: "k < length txs"
      "ApplyTxsFromBatch_loop env d (take k [0..<length txs]) db = (Inr (), dbk)"
      "ApplyTxsFromBatch_step env d ([0..<length txs] ! k) dbk = (Inl e, db')"
    by auto
  from k(1) have "take k [0..<length txs] = [0..<k]" "[0..<length txs] ! k = k"
    by (simp_all add: take_upt)
  with k Inr show ?thesis
    by auto
qed

theorem ApplyTxsFromBatch_error_keeps_prefix_witness:
  "\<exists>d dbk. DecompressTransferTxs toy_env [[1, 2, 30, 9], [2, 1, 50, 9]] = Inr d
     \<and> ApplyTxsFromBatch_loop toy_env d [0..<1] toy_db = (Inr (), dbk)
     \<and> map Data (accounts dbk) = [Some [1, 70, 1, 1], Some [2, 30, 0, 1], Some [48]]
     \<and> ApplyTxsFromBatch_step toy_env d 1 dbk
         = ApplyTxsFromBatch toy_env [[1, 2, 30, 9], [2, 1, 50, 9]] toy_db"
proof -
  let ?txs = "[[1, 2, 30, 9], [2, 1, 50, 9]] :: byte list list"
  define d0 :: "nat list \<times> nat list \<times> nat list \<times> byte list list"
    where "d0 = ([1, 2], [2, 1], [30, 50], [[9], [9]])"
  have e: "fst (ApplyTxsFromBatch toy_env ?txs toy_db) = Inl (Other ''insufficient balance'')"
    by code_simp
  then have r: "ApplyTxsFromBatch toy_env ?txs toy_db
      = (Inl (Other ''insufficient balance''), snd (ApplyTxsFromBatch toy_env ?txs toy_db))"
    by (metis prod.collapse)
  have "DecompressTransferTxs toy_env ?txs = Inr ([1, 2], [2, 1], [30, 50], [[9], [9]])"
    by code_simp
  then have dec: "DecompressTransferTxs toy_env ?txs = Inr d0"
    by (simp only: d0_def)
  have "fst (ApplyTxsFromBatch_step toy_env ([1, 2], [2, 1], [30, 50], [[9], [9]]) 0 toy_db)
      = Inr ()"
    by code_simp
  then have first: "fst (ApplyTxsFromBatch_step toy_env d0 0 toy_db) = Inr ()"
    by (simp only: d0_def)
  have "map Data (accounts (snd (ApplyTxsFromBatch_step toy_env
      ([1, 2], [2, 1], [30, 50], [[9], [9]]) 0 toy_db))) = [Some [1, 70, 1, 1], Some [2, 30, 0, 1], Some [48]]"
    by code_simp
  then have data: "map Data (accounts (snd (ApplyTxsFromBatch_step toy_env d0 0 toy_db)))
      = [Some [1, 70, 1, 1], Some [2, 30, 0, 1], Some [48]]"
    by (simp only: d0_def)
  from ApplyTxsFromBatch_error_keeps_prefix [OF r] show ?thesis
  proof (elim disjE exE conjE)
    fix m
    assume "DecompressTransferTxs toy_env ?txs = Inl m"
    with dec show ?thesis by simp
  next
    fix d k dbk
    assume a: "DecompressTransferTxs toy_env ?txs = Inr d" "k < length ?txs"
      "ApplyTxsFromBatch_loop toy_env d [0..<k] toy_db = (Inr (), dbk)"
      "ApplyTxsFromBatch_step toy_env d k dbk
        = (Inl (Other ''insufficient balance''), snd (ApplyTxsFromBatch toy_env ?txs toy_db))"
    from a(1) dec have d: "d = d0" by simp
    have "k \<noteq> 0"
    proof
      assume "k = 0"
      with a(3) have "dbk = toy_db" by simp
      with a(4) \<open>k = 0\<close> first d show False by simp
    qed
    with a(2) have k1: "k = 1" by simp
    obtain res db1 where st: "ApplyTxsFromBatch_step toy_env d0 0 toy_db = (res, db1)"
      by (cases "ApplyTxsFromBatch_step toy_env d0 0 toy_db")
    with first have res: "res = Inr ()" by simp
    from a(3) k1 d st res have dbk: "dbk = db1" by simp
    from data st have "map Data (accounts db1) = [Some [1, 70, 1, 1], Some [2, 30, 0, 1], Some [48]]" by simp
    with a(3,4) k1 d dbk dec r show ?thesis
      by (intro exI [of _ d0] exI [of _ db1]) simp
  qed
qed

section \<open>Sibling proofs\<close>

lemma is_bit_path_append:
  "is_bit_path (p @ q) \<longleftrightarrow> is_bit_path p \<and> is_bit_path q"
  by (simp add: is_bit_path_def)

lemma in_bit_paths: "p \<in> set (bit_paths n) \<longleftrightarrow> length p = n \<and> is_bit_path p"
proof (induction n arbitrary: p)
  case 0
  then show ?case by (auto simp: is_bit_path_def)
next
  case (Suc n)
  show ?case
  proof (cases p rule: rev_cases)
    case Nil
    then show ?thesis by auto
  next
    case (snoc q c)
    then show ?thesis
      using Suc [of q] by (auto simp: is_bit_path_def)
  qed
qed

lemma tree_consistent_at:
  assumes "tree_consistent env depth db" "is_bit_path t" "length t < depth"
  shows "consistent_at env db t"
proof -
  from assms(1) have "list_all (consistent_at env db) (bit_paths (length t))"
    using assms(3) by (simp add: tree_consistent_def list_all_iff)
  moreover have "t \<in> set (bit_paths (length t))"
    using assms(2) by (simp add: in_bit_paths)
  ultimately show ?thesis
    by (simp add: list_all_iff)
qed

lemma tree_consistent_root:
  "tree_consistent env depth db \<Longrightarrow> \<exists>root. GetAccountByPath db [] = Inr root"
  by (auto simp: tree_consistent_def split: sum.splits)

lemma GetRoot_eq_path:
  assumes "levels_ok db"
  shows "GetRoot db = GetAccountByPath db []"
proof -
  have "filter (\<lambda>r. Level r = 0) (accounts db) = filter (\<lambda>r. Path r = []) (accounts db)"
    using assms by (intro filter_cong) (auto simp: levels_ok_def list_all_iff)
  then show ?thesis
    by (simp add: GetRoot_def GetAccountByPath_def gorm_Find_one_def)
qed

lemma GetSiblings_loop_acc:
  "GetSiblings_loop db n q acc =
     (case GetSiblings_loop db n q [] of Inl e \<Rightarrow> Inl e | Inr xs \<Rightarrow> Inr (acc @ xs))"
proof (induction n arbitrary: q acc)
  case 0
  then show ?case by simp
next
  case (Suc n)
  show ?case
  proof (cases "GetAccountByPath db (GetOtherChild q)")
    case (Inl e)
    then show ?thesis by simp
  next
    case (Inr node)
    then show ?thesis
      using Suc [of "GetParentPath q" "acc @ [node]"] Suc [of "GetParentPath q" "[node]"]
      by (simp split: sum.splits)
  qed
qed

lemma GetNthBitFromRight_mid:
  "GetNthBitFromRight (t @ b # s) (length s) = Inr (if b = CHR ''0'' then 0 else 1)"
  by (simp add: GetNthBitFromRight_def nth_append)

lemma GetOtherChild_snoc:
  "GetOtherChild (t @ [b]) = t @ [if b = CHR ''0'' then CHR ''1'' else CHR ''0'']"
  by (simp add: GetOtherChild_def)

lemma sibling_proof_general:
  assumes "tree_consistent env depth db"
  shows "is_bit_path (q @ s) \<Longrightarrow> length q \<le> depth \<Longrightarrow>
     \<exists>node sibs root. GetAccountByPath db q = Inr node
        \<and> GetSiblings_loop db (length q) q [] = Inr sibs
        \<and> GetAccountByPath db [] = Inr root
        \<and> recompute_root env (q @ s) (length s) (Hash node) sibs = Inr (Hash root)"
proof (induction q arbitrary: s rule: rev_induct)
  case Nil
  from tree_consistent_root [OF assms] obtain root where "GetAccountByPath db [] = Inr root"
    by blast
  then show ?case by simp
next
  case (snoc b t)
  from snoc.prems have bits: "is_bit_path t" "b = CHR ''0'' \<or> b = CHR ''1''" and len: "length t < depth"
    by (simp_all add: is_bit_path_def)
  from tree_consistent_at [OF assms bits(1) len] obtain n l r where
    n: "GetAccountByPath db t = Inr n" and l: "GetAccountByPath db (t @ ''0'') = Inr l"
    and r: "GetAccountByPath db (t @ ''1'') = Inr r"
    and h: "GetParent env (Hash l) (Hash r) = Inr (Hash n)"
    by (auto simp: consistent_at_def split: sum.splits)
  from snoc.prems have "is_bit_path (t @ (b # s))" "length t \<le> depth"
    by simp_all
  from snoc.IH [OF this] n obtain sibs root where
    ih: "GetSiblings_loop db (length t) t [] = Inr sibs" "GetAccountByPath db [] = Inr root"
      "recompute_root env (t @ b # s) (Suc (length s)) (Hash n) sibs = Inr (Hash root)"
    by auto
  define node where "node = (if b = CHR ''0'' then l else r)"
  define sib where "sib = (if b = CHR ''0'' then r else l)"
  from bits(2) l r have node: "GetAccountByPath db (t @ [b]) = Inr node"
    by (auto simp: node_def)
  from bits(2) l r have sib: "GetAccountByPath db (GetOtherChild (t @ [b])) = Inr sib"
    by (auto simp: sib_def GetOtherChild_snoc)
  have loop: "GetSiblings_loop db (length (t @ [b])) (t @ [b]) [] = Inr (sib # sibs)"
    using sib ih(1) GetSiblings_loop_acc [of db "length t" t "[sib]"]
    by (simp add: GetParentPath_def)
  have "recompute_root env ((t @ [b]) @ s) (length s) (Hash node) (sib # sibs) = Inr (Hash root)"
    using bits(2) h ih(3) by (auto simp: GetNthBitFromRight_mid node_def sib_def)
  with node loop ih(2) show ?case
    by blast
qed

text \<open>
  In a store that holds a consistent tree, for the path \<open>p\<close> of any node, in
  particular of any leaf, \<open>GetSiblings p\<close> succeeds, and folding the stored hash of the
  node with those siblings in leaf-to-root order, each on the side the path bit gives,
  yields the hash of the root that \<open>GetRoot\<close> returns.
\<close>

lemma sibling_proof_consistent:
  assumes "tree_consistent env depth db" and "is_bit_path p" and "length p \<le> depth"
  shows "\<exists>leaf sibs root. GetAccountByPath db p = Inr leaf
           \<and> GetSiblings db p = Inr sibs
           \<and> GetRoot db = Inr root
           \<and> recompute_root env p 0 (Hash leaf) sibs = Inr (Hash root)"
proof -
  from assms(1) have "GetRoot db = GetAccountByPath db []"
    by (intro GetRoot_eq_path) (simp add: tree_consistent_def)
  with sibling_proof_general [OF assms(1), of p "[]"] assms(2,3) show ?thesis
    by (simp add: GetSiblings_def)
qed

section \<open>StoreLeaf keeps the tree consistent\<close>

lemma gorm_updates_self: "gorm_updates n n = n"
  by (simp add: gorm_updates_def split: option.splits)

lemma gorm_updates_Path:
  "Path new = q \<or> Path new = [] \<Longrightarrow> Path row = q \<Longrightarrow> Path (gorm_updates row new) = q"
  by (auto simp: gorm_updates_def)

lemma gorm_updates_Hash: "Hash new \<noteq> [] \<Longrightarrow> Hash (gorm_updates row new) = Hash new"
  by (simp add: gorm_updates_def)

lemma GetAccountByPath_Inr:
  "GetAccountByPath db q = Inr n \<Longrightarrow> n \<in> set (accounts db) \<and> Path n = q \<and> \<not> db_fault db"
proof -
  assume a: "GetAccountByPath db q = Inr n"
  then have nf: "\<not> db_fault db"
    by (auto simp: GetAccountByPath_def gorm_Find_one_def split: if_splits)
  with a obtain r rs where f: "filter (\<lambda>r. Path r = q) (accounts db) = r # rs" "n = last (r # rs)"
    by (auto simp: GetAccountByPath_def gorm_Find_one_def split: list.splits)
  then have "n \<in> set (filter (\<lambda>r. Path r = q) (accounts db))"
    by (metis last_in_set list.distinct(1))
  with nf show ?thesis by simp
qed

lemma updateAccount_ok:
  "\<not> db_fault db \<Longrightarrow> fst (updateAccount new q db) = Inr ()
     \<and> \<not> db_fault (snd (updateAccount new q db))"
  by (simp add: updateAccount_def gorm_Update_def)

lemma gorm_updates_Level:
  "Level (gorm_updates row new) = (if Level new = 0 then Level row else Level new)"
  by (simp add: gorm_updates_def)

lemma gorm_updates_Path_eq:
  "Path (gorm_updates row new) = (if Path new = [] then Path row else Path new)"
  by (simp add: gorm_updates_def)

lemma updateAccount_accounts:
  "\<not> db_fault db \<Longrightarrow>
     accounts (snd (updateAccount new q db))
       = map (\<lambda>row. if Path row = q then gorm_updates row new else row) (accounts db)"
  by (simp add: updateAccount_def gorm_Update_def)

lemma updateAccount_lookup:
  assumes "\<not> db_fault db" and "Path new = q \<or> Path new = []"
  shows "GetAccountByPath (snd (updateAccount new q db)) x =
           map_sum id (\<lambda>n. if x = q then gorm_updates n new else n) (GetAccountByPath db x)"
proof -
  define f where "f = (\<lambda>row. if Path row = q then gorm_updates row new else row)"
  have pf: "Path (f row) = Path row" for row
    using assms(2) by (auto simp: f_def gorm_updates_Path_eq)
  have acc: "accounts (snd (updateAccount new q db)) = map f (accounts db)"
    using assms(1) by (simp add: updateAccount_accounts f_def)
  have nf: "\<not> db_fault (snd (updateAccount new q db))"
    using assms(1) by (simp add: updateAccount_ok)
  have fil: "filter (\<lambda>r. Path r = x) (map f (accounts db))
      = map f (filter (\<lambda>r. Path r = x) (accounts db))"
    by (simp add: filter_map o_def pf)
  show ?thesis
  proof (cases "filter (\<lambda>r. Path r = x) (accounts db)")
    case Nil
    with fil acc nf assms(1) show ?thesis
      by (simp add: GetAccountByPath_def gorm_Find_one_def)
  next
    case (Cons r rs)
    then have "last (r # rs) \<in> set (filter (\<lambda>r. Path r = x) (accounts db))"
      by (metis last_in_set list.distinct(1))
    then have px: "Path (last (r # rs)) = x" by simp
    have lm: "last (map f (r # rs)) = f (last (r # rs))"
      by (rule last_map) simp
    have "GetAccountByPath db x = Inr (last (r # rs))"
      using Cons assms(1) by (simp add: GetAccountByPath_def gorm_Find_one_def)
    moreover have "GetAccountByPath (snd (updateAccount new q db)) x = Inr (f (last (r # rs)))"
      using Cons fil acc nf lm
      by (simp add: GetAccountByPath_def gorm_Find_one_def del: last.simps)
    ultimately show ?thesis
      using px by (simp add: f_def)
  qed
qed

lemma updateAccount_levels:
  assumes lv: "levels_ok db"
    and nf: "\<not> db_fault db" and pn: "Path new = q \<or> Path new = []"
    and ln: "Level new = 0 \<or> q \<noteq> []"
  shows "levels_ok (snd (updateAccount new q db))"
proof -
  define f where "f = (\<lambda>row. if Path row = q then gorm_updates row new else row)"
  have row: "(Level (f r) = 0) = (Path (f r) = [])" if r: "(Level r = 0) = (Path r = [])" for r
  proof (cases "Path r = q")
    case False
    with r show ?thesis by (simp add: f_def)
  next
    case True
    then have p: "Path (f r) = q"
      using pn by (auto simp: f_def gorm_updates_Path_eq)
    show ?thesis
    proof (cases "Level new = 0")
      case True
      with \<open>Path r = q\<close> have "Level (f r) = Level r"
        by (simp add: f_def gorm_updates_Level)
      with r p \<open>Path r = q\<close> show ?thesis by simp
    next
      case False
      with ln have "q \<noteq> []" by simp
      moreover from False \<open>Path r = q\<close> have "Level (f r) \<noteq> 0"
        by (simp add: f_def gorm_updates_Level)
      ultimately show ?thesis using p by simp
    qed
  qed
  have "accounts (snd (updateAccount new q db)) = map f (accounts db)"
    using nf by (simp add: updateAccount_accounts f_def)
  with lv row show ?thesis
    by (simp add: levels_ok_def list_all_iff)
qed

lemma StoreNode_effect:
  assumes nf: "\<not> db_fault db"
    and lv: "levels_ok db"
    and pa: "Path A = t @ [a]" and pb: "Path B = t @ [b]" and ab: "a \<noteq> b"
  shows "fst (StoreNode ph A B db) = Inr ()"
    and "\<not> db_fault (snd (StoreNode ph A B db))"
    and "levels_ok (snd (StoreNode ph A B db))"
    and "GetAccountByPath (snd (StoreNode ph A B db)) x =
           map_sum id
             (\<lambda>n. if x = t then gorm_updates n (zeroAccount\<lparr>Path := t, Hash := ph\<rparr>)
                   else if x = t @ [a] then gorm_updates n A
                   else if x = t @ [b] then gorm_updates n B
                   else n)
             (GetAccountByPath db x)"
proof -
  define db1 where "db1 = snd (updateAccount A (Path A) db)"
  define db2 where "db2 = snd (updateAccount B (Path B) db1)"
  define tmp where "tmp = zeroAccount\<lparr>Path := t, Hash := ph\<rparr>"
  define db3 where "db3 = snd (updateAccount tmp t db2)"
  have nf1: "\<not> db_fault db1"
    using updateAccount_ok [OF nf, of A "Path A"] by (simp add: db1_def)
  have nf2: "\<not> db_fault db2"
    using updateAccount_ok [OF nf1, of B "Path B"] by (simp add: db2_def)
  have nf3: "\<not> db_fault db3"
    using updateAccount_ok [OF nf2, of tmp t] by (simp add: db3_def)
  have u1: "updateAccount A (Path A) db = (Inr (), db1)"
    using updateAccount_ok [OF nf, of A "Path A"] by (simp add: db1_def prod_eq_iff)
  have u2: "updateAccount B (Path B) db1 = (Inr (), db2)"
    using updateAccount_ok [OF nf1, of B "Path B"] by (simp add: db2_def prod_eq_iff)
  have u3: "updateAccount tmp t db2 = (Inr (), db3)"
    using updateAccount_ok [OF nf2, of tmp t] by (simp add: db3_def prod_eq_iff)
  have "GetParentPath (Path A) = t"
    by (simp add: GetParentPath_def pa)
  then have sn: "StoreNode ph A B db = (Inr (), db3)"
    by (simp add: StoreNode_def UpdateParentWithHash_def u1 u2 u3 [unfolded tmp_def])
  have ptmp: "Path tmp = t \<or> Path tmp = []" and ltmp: "Level tmp = 0"
    by (simp_all add: tmp_def zeroAccount_def)
  have lv1: "levels_ok db1"
    unfolding db1_def by (rule updateAccount_levels [OF lv nf]) (simp_all add: pa)
  have lv2: "levels_ok db2"
    unfolding db2_def by (rule updateAccount_levels [OF lv1 nf1]) (simp_all add: pb)
  have lv3: "levels_ok db3"
    unfolding db3_def by (rule updateAccount_levels [OF lv2 nf2 ptmp]) (simp add: ltmp)
  have g1: "GetAccountByPath db1 x =
      map_sum id (\<lambda>n. if x = t @ [a] then gorm_updates n A else n) (GetAccountByPath db x)"
    unfolding db1_def using updateAccount_lookup [OF nf, of A "Path A" x] pa by simp
  have g2: "GetAccountByPath db2 x =
      map_sum id (\<lambda>n. if x = t @ [b] then gorm_updates n B else n) (GetAccountByPath db1 x)"
    unfolding db2_def using updateAccount_lookup [OF nf1, of B "Path B" x] pb by simp
  have g3: "GetAccountByPath db3 x =
      map_sum id (\<lambda>n. if x = t then gorm_updates n tmp else n) (GetAccountByPath db2 x)"
    unfolding db3_def using updateAccount_lookup [OF nf2 ptmp, of x] by simp
  show "fst (StoreNode ph A B db) = Inr ()" using sn by simp
  show "\<not> db_fault (snd (StoreNode ph A B db))" using sn nf3 by simp
  show "levels_ok (snd (StoreNode ph A B db))"
    using sn lv3 by simp
  have "GetAccountByPath db3 x =
           map_sum id
             (\<lambda>n. if x = t then gorm_updates n tmp
                   else if x = t @ [a] then gorm_updates n A
                   else if x = t @ [b] then gorm_updates n B
                   else n)
             (GetAccountByPath db x)"
    unfolding g3 g2 g1 using ab
    by (cases "GetAccountByPath db x") auto
  then show "GetAccountByPath (snd (StoreNode ph A B db)) x =
           map_sum id
             (\<lambda>n. if x = t then gorm_updates n (zeroAccount\<lparr>Path := t, Hash := ph\<rparr>)
                   else if x = t @ [a] then gorm_updates n A
                   else if x = t @ [b] then gorm_updates n B
                   else n)
             (GetAccountByPath db x)"
    unfolding tmp_def using sn by simp
qed

lemma GetOtherChild_length: "length (GetOtherChild q) = length q"
  by (cases q rule: rev_cases) (simp_all add: GetOtherChild_def)

lemma GetOtherChild_neq: "q \<noteq> [] \<Longrightarrow> GetOtherChild q \<noteq> q"
  by (cases q rule: rev_cases) (auto simp: GetOtherChild_def)

lemma GetSiblings_loop_cong:
  "length q = n \<Longrightarrow>
   (\<And>j. j < n \<Longrightarrow> GetAccountByPath db1 (GetOtherChild (take (Suc j) q))
                    = GetAccountByPath db (GetOtherChild (take (Suc j) q))) \<Longrightarrow>
   GetSiblings_loop db1 n q acc = GetSiblings_loop db n q acc"
proof (induction n arbitrary: q acc)
  case 0
  then show ?case by simp
next
  case (Suc n)
  from Suc.prems(1) have len: "length (butlast q) = n"
    by simp
  have same: "GetAccountByPath db1 (GetOtherChild q) = GetAccountByPath db (GetOtherChild q)"
    using Suc.prems(2) [of n] Suc.prems(1) by simp
  have rec: "GetSiblings_loop db1 n (butlast q) acc' = GetSiblings_loop db n (butlast q) acc'"
    for acc'
  proof (rule Suc.IH [OF len])
    fix j
    assume j: "j < n"
    with Suc.prems(1) have "take (Suc j) (butlast q) = take (Suc j) q"
      by (simp add: take_butlast)
    with Suc.prems(2) [of j] j
    show "GetAccountByPath db1 (GetOtherChild (take (Suc j) (butlast q)))
        = GetAccountByPath db (GetOtherChild (take (Suc j) (butlast q)))"
      by simp
  qed
  show ?case
    by (simp add: same rec GetParentPath_def split: sum.splits)
qed

lemma GetSiblings_loop_snoc:
  assumes "GetSiblings_loop db (Suc (length t)) (t @ [b]) [] = Inr sibs"
  shows "\<exists>sib rest. GetAccountByPath db (GetOtherChild (t @ [b])) = Inr sib
           \<and> GetSiblings_loop db (length t) t [] = Inr rest \<and> sibs = sib # rest"
proof (cases "GetAccountByPath db (GetOtherChild (t @ [b]))")
  case (Inl e)
  with assms show ?thesis by simp
next
  case (Inr sib)
  with assms have "GetSiblings_loop db (length t) t [sib] = Inr sibs"
    by (simp add: GetParentPath_def)
  then show ?thesis
    using Inr GetSiblings_loop_acc [of db "length t" t "[sib]"]
    by (auto split: sum.splits)
qed

lemma gorm_updates_root_hash:
  "gorm_updates m (zeroAccount\<lparr>Path := [], Hash := Hash m\<rparr>) = m"
  by (simp add: gorm_updates_def zeroAccount_def)

lemma consistent_at_cong:
  assumes "GetAccountByPath db1 t = GetAccountByPath db t"
    and "GetAccountByPath db1 (t @ ''0'') = GetAccountByPath db (t @ ''0'')"
    and "GetAccountByPath db1 (t @ ''1'') = GetAccountByPath db (t @ ''1'')"
  shows "consistent_at env db1 t = consistent_at env db t"
  unfolding consistent_at_def assms by (rule refl)

text \<open>
  One round of the loop of \<open>StoreLeaf\<close> at the node \<open>t @ [b]\<close>, where the computed node
  \<open>c\<close> has that path and \<open>sib\<close> is the stored sibling. If the round succeeds, the rows
  of \<open>t @ [b]\<close> and \<open>t\<close> are the only ones whose lookup may change, the parent read
  back has the pair hash, and \<open>t\<close> is consistent afterwards.
\<close>

lemma StoreLeaf_round:
  assumes hb: "hash_nonblank env"
    and nf: "\<not> db_fault db" and lv: "levels_ok db"
    and b: "b = CHR ''0'' \<or> b = CHR ''1''"
    and pc: "Path c = t @ [b]" and hc: "Hash c \<noteq> []"
    and n: "GetAccountByPath db (t @ [b]) = Inr n"
    and sib: "GetAccountByPath db (GetOtherChild (t @ [b])) = Inr sib"
    and run: "StoreLeaf_loop env (t @ b # s) (length s) (sib # rest) c db = (Inr c', db')"
  shows "\<exists>db1 c1. \<not> db_fault db1 \<and> levels_ok db1
           \<and> StoreLeaf_loop env (t @ b # s) (Suc (length s)) rest c1 db1 = (Inr c', db')
           \<and> GetAccountByPath db1 t = Inr c1 \<and> Path c1 = t \<and> Hash c1 \<noteq> []
           \<and> GetAccountByPath db1 (t @ [b]) = Inr (gorm_updates n c)
           \<and> (\<forall>x. x \<noteq> t \<and> x \<noteq> t @ [b] \<longrightarrow> GetAccountByPath db1 x = GetAccountByPath db x)
           \<and> consistent_at env db1 t"
proof -
  define fb where "fb = (if b = CHR ''0'' then CHR ''1'' else CHR ''0'')"
  have fb: "fb \<noteq> b" and oc: "GetOtherChild (t @ [b]) = t @ [fb]"
    using b by (auto simp: fb_def GetOtherChild_snoc)
  from sib oc have ps: "Path sib = t @ [fb]" and sib': "GetAccountByPath db (t @ [fb]) = Inr sib"
    by (auto dest: GetAccountByPath_Inr)
  define leftNode where "leftNode = (if b = CHR ''0'' then c else sib)"
  define rightNode where "rightNode = (if b = CHR ''0'' then sib else c)"
  have bit: "GetNthBitFromRight (t @ b # s) (length s) = Inr (if b = CHR ''0'' then 0 else 1)"
    by (rule GetNthBitFromRight_mid)
  have L: "(if (if b = CHR ''0'' then (0::nat) else 1) = 0 then c else sib) = leftNode"
    and R: "(if (if b = CHR ''0'' then (0::nat) else 1) = 0 then sib else c) = rightNode"
    by (simp_all add: leftNode_def rightNode_def)
  have gp: "GetParentPath (Path c) = t"
    by (simp add: GetParentPath_def pc)
  have step: "StoreLeaf_loop env (t @ b # s) (length s) (sib # rest) c db =
      (case GetParent env (Hash leftNode) (Hash rightNode) of
         Inl m \<Rightarrow> (Inl (Other m), db)
       | Inr parentHash \<Rightarrow>
           (case StoreNode parentHash leftNode rightNode db of
              (Inl e, db1) \<Rightarrow> (Inl e, db1)
            | (Inr u, db1) \<Rightarrow>
                (case GetAccountByPath db1 t of
                   Inl e \<Rightarrow> (Inl e, db1)
                 | Inr parentAccount \<Rightarrow>
                     StoreLeaf_loop env (t @ b # s) (Suc (length s)) rest parentAccount db1)))"
    by (simp only: StoreLeaf_loop.simps bit sum.case Let_def L R gp)
  obtain ph where ph: "GetParent env (Hash leftNode) (Hash rightNode) = Inr ph"
    using run unfolding step
    by (cases "GetParent env (Hash leftNode) (Hash rightNode)") auto
  with hb have phn: "ph \<noteq> []"
    by (auto simp: hash_nonblank_def)
  define db1 where "db1 = snd (StoreNode ph leftNode rightNode db)"
  have eff: "fst (StoreNode ph leftNode rightNode db) = Inr ()" "\<not> db_fault db1"
      "levels_ok db1"
    and look: "GetAccountByPath db1 x =
        map_sum id
          (\<lambda>m. if x = t then gorm_updates m (zeroAccount\<lparr>Path := t, Hash := ph\<rparr>)
                else if x = t @ [b] then gorm_updates m c
                else if x = t @ [fb] then gorm_updates m sib
                else m)
          (GetAccountByPath db x)" for x
  proof -
    show "fst (StoreNode ph leftNode rightNode db) = Inr ()" "\<not> db_fault db1" "levels_ok db1"
      unfolding db1_def leftNode_def rightNode_def
      using StoreNode_effect(1-3) [OF nf lv pc ps fb [symmetric], of ph]
        StoreNode_effect(1-3) [OF nf lv ps pc fb, of ph]
      by (simp_all split: if_splits)
    show "GetAccountByPath db1 x =
        map_sum id
          (\<lambda>m. if x = t then gorm_updates m (zeroAccount\<lparr>Path := t, Hash := ph\<rparr>)
                else if x = t @ [b] then gorm_updates m c
                else if x = t @ [fb] then gorm_updates m sib
                else m)
          (GetAccountByPath db x)"
    proof (cases "b = CHR ''0''")
      case True
      then show ?thesis
        unfolding db1_def leftNode_def rightNode_def
        using StoreNode_effect(4) [OF nf lv pc ps fb [symmetric], of ph x] by simp
    next
      case False
      then show ?thesis
        unfolding db1_def leftNode_def rightNode_def
        using StoreNode_effect(4) [OF nf lv ps pc fb, of ph x] fb
        by (cases "GetAccountByPath db x") auto
    qed
  qed
  from eff(1) have sn: "StoreNode ph leftNode rightNode db = (Inr (), db1)"
    by (simp add: db1_def prod_eq_iff)
  from run have "(case GetAccountByPath db1 t of
         Inl e \<Rightarrow> (Inl e, db1)
       | Inr parentAccount \<Rightarrow>
           StoreLeaf_loop env (t @ b # s) (Suc (length s)) rest parentAccount db1) = (Inr c', db')"
    unfolding step by (simp add: ph sn)
  then obtain c1 where c1: "GetAccountByPath db1 t = Inr c1"
    and cont: "StoreLeaf_loop env (t @ b # s) (Suc (length s)) rest c1 db1 = (Inr c', db')"
    by (cases "GetAccountByPath db1 t") auto
  from c1 have pc1: "Path c1 = t"
    by (auto dest: GetAccountByPath_Inr)
  from c1 look [of t] obtain m where m: "GetAccountByPath db t = Inr m"
    and c1m: "c1 = gorm_updates m (zeroAccount\<lparr>Path := t, Hash := ph\<rparr>)"
    by (cases "GetAccountByPath db t") auto
  from c1m phn have hc1: "Hash c1 = ph"
    by (simp add: gorm_updates_Hash)
  have gq: "GetAccountByPath db1 (t @ [b]) = Inr (gorm_updates n c)"
    using look [of "t @ [b]"] n by simp
  have gs: "GetAccountByPath db1 (t @ [fb]) = Inr sib"
    using look [of "t @ [fb]"] sib' fb by (simp add: gorm_updates_self)
  have unch: "GetAccountByPath db1 x = GetAccountByPath db x" if "x \<noteq> t" "x \<noteq> t @ [b]" for x
  proof (cases "x = t @ [fb]")
    case True
    with gs sib' show ?thesis by simp
  next
    case False
    with that look [of x] show ?thesis
      by (cases "GetAccountByPath db x") auto
  qed
  have hq: "Hash (gorm_updates n c) = Hash c"
    using hc by (rule gorm_updates_Hash)
  have cons: "consistent_at env db1 t"
  proof (cases "b = CHR ''0''")
    case True
    with fb_def have "fb = CHR ''1''" by simp
    with True gq gs c1 ph hc1 hq show ?thesis
      by (simp add: consistent_at_def leftNode_def rightNode_def)
  next
    case False
    with b fb_def have "b = CHR ''1''" "fb = CHR ''0''" by simp_all
    with gq gs c1 ph hc1 hq show ?thesis
      by (simp add: consistent_at_def leftNode_def rightNode_def)
  qed
  from eff(2,3) cont c1 pc1 hc1 phn gq unch cons show ?thesis
    by blast
qed

text \<open>
  The loop of \<open>StoreLeaf\<close> from the node \<open>q\<close> upwards, with \<open>q @ s\<close> the path of the
  leaf: if every node that is not a proper prefix of \<open>q\<close> is consistent before, every
  node is consistent after, the last computed node is the stored root, and rows below
  \<open>q\<close> are untouched.
\<close>

lemma StoreLeaf_loop_consistent:
  assumes hb: "hash_nonblank env"
  shows "\<not> db_fault db \<Longrightarrow> levels_ok db \<Longrightarrow> is_bit_path (q @ s) \<Longrightarrow>
     length (q @ s) = depth \<Longrightarrow> q @ s \<noteq> [] \<Longrightarrow>
     GetSiblings_loop db (length q) q [] = Inr sibs \<Longrightarrow>
     Path c = q \<Longrightarrow> Hash c \<noteq> [] \<Longrightarrow>
     GetAccountByPath db q = Inr n \<Longrightarrow> (s \<noteq> [] \<longrightarrow> n = c) \<Longrightarrow>
     (\<forall>t. is_bit_path t \<and> length t < depth \<and> (\<forall>u. u \<noteq> [] \<longrightarrow> q \<noteq> t @ u)
          \<longrightarrow> consistent_at env db t) \<Longrightarrow>
     StoreLeaf_loop env (q @ s) (length s) sibs c db = (Inr c', db') \<Longrightarrow>
     \<not> db_fault db' \<and> levels_ok db' \<and> GetAccountByPath db' [] = Inr c'
       \<and> (\<forall>t. is_bit_path t \<and> length t < depth \<longrightarrow> consistent_at env db' t)
       \<and> (\<forall>x. length q < length x \<longrightarrow> GetAccountByPath db' x = GetAccountByPath db x)
       \<and> (q \<noteq> [] \<longrightarrow> GetAccountByPath db' q = Inr (gorm_updates n c))"
proof (induction q arbitrary: s sibs c n db rule: rev_induct)
  case Nil
  from Nil.prems(6) have "sibs = []" by simp
  with Nil.prems(12) have "c' = c" "db' = db" by simp_all
  moreover from Nil.prems(5,10) have "n = c" by simp
  ultimately show ?case
    using Nil.prems(1,2,9,11) by simp
next
  case (snoc b t)
  note nf = snoc.prems(1) and lv = snoc.prems(2) and bp = snoc.prems(3)
    and len = snoc.prems(4) and pc = snoc.prems(7) and hc = snoc.prems(8)
    and n = snoc.prems(9) and nc = snoc.prems(10) and cons = snoc.prems(11)
  from bp have b: "b = CHR ''0'' \<or> b = CHR ''1''" and bt: "is_bit_path t"
    by (simp_all add: is_bit_path_def)
  from snoc.prems(6) have "GetSiblings_loop db (Suc (length t)) (t @ [b]) [] = Inr sibs"
    by simp
  from GetSiblings_loop_snoc [OF this] obtain sib rest where
    sib: "GetAccountByPath db (GetOtherChild (t @ [b])) = Inr sib"
    and rest: "GetSiblings_loop db (length t) t [] = Inr rest" and sibs: "sibs = sib # rest"
    by blast
  from snoc.prems(12) sibs
  have run: "StoreLeaf_loop env (t @ b # s) (length s) (sib # rest) c db = (Inr c', db')"
    by simp
  from StoreLeaf_round [OF hb nf lv b pc hc n sib run] obtain db1 c1 where
    nf1: "\<not> db_fault db1" and lv1: "levels_ok db1"
    and cont: "StoreLeaf_loop env (t @ b # s) (Suc (length s)) rest c1 db1 = (Inr c', db')"
    and c1: "GetAccountByPath db1 t = Inr c1" and pc1: "Path c1 = t" and hc1: "Hash c1 \<noteq> []"
    and gq: "GetAccountByPath db1 (t @ [b]) = Inr (gorm_updates n c)"
    and unch: "\<forall>x. x \<noteq> t \<and> x \<noteq> t @ [b] \<longrightarrow> GetAccountByPath db1 x = GetAccountByPath db x"
    and ct: "consistent_at env db1 t"
    by blast
  have same_q: "GetAccountByPath db1 (t @ [b]) = GetAccountByPath db (t @ [b])" if "s \<noteq> []"
    using that nc gq n by (simp add: gorm_updates_self)
  have rest1: "GetSiblings_loop db1 (length t) t [] = Inr rest"
  proof -
    have "GetSiblings_loop db1 (length t) t [] = GetSiblings_loop db (length t) t []"
    proof (rule GetSiblings_loop_cong [OF refl])
      fix j
      assume j: "j < length t"
      define x where "x = GetOtherChild (take (Suc j) t)"
      have lx: "length x = Suc j"
        using j by (simp add: x_def GetOtherChild_length)
      have "x \<noteq> t"
      proof
        assume "x = t"
        with lx j have "take (Suc j) t = t" by simp
        moreover from j have "take (Suc j) t \<noteq> []" by auto
        ultimately show False
          using GetOtherChild_neq [of "take (Suc j) t"] \<open>x = t\<close> by (simp add: x_def)
      qed
      moreover from lx j have "x \<noteq> t @ [b]" by auto
      ultimately show "GetAccountByPath db1 (GetOtherChild (take (Suc j) t))
          = GetAccountByPath db (GetOtherChild (take (Suc j) t))"
        using unch by (simp add: x_def)
    qed
    with rest show ?thesis by simp
  qed
  have cons1: "\<forall>t'. is_bit_path t' \<and> length t' < depth \<and> (\<forall>u. u \<noteq> [] \<longrightarrow> t \<noteq> t' @ u)
      \<longrightarrow> consistent_at env db1 t'"
  proof (intro allI impI, elim conjE)
    fix t'
    assume bt': "is_bit_path t'" and lt': "length t' < depth"
      and np: "\<forall>u. u \<noteq> [] \<longrightarrow> t \<noteq> t' @ u"
    show "consistent_at env db1 t'"
    proof (cases "t' = t")
      case True
      with ct show ?thesis by simp
    next
      case False
      have npq: "\<forall>u. u \<noteq> [] \<longrightarrow> t @ [b] \<noteq> t' @ u"
      proof (intro allI impI notI)
        fix u :: string
        assume u: "u \<noteq> []" and eq: "t @ [b] = t' @ u"
        from u obtain u' x where "u = u' @ [x]"
          by (cases u rule: rev_cases) auto
        with eq have "t = t' @ u'" by simp
        with np False show False by (cases "u' = []") auto
      qed
      with cons bt' lt' have old: "consistent_at env db t'"
        by simp
      have ne: "x \<noteq> t" if "x = t' \<or> x = t' @ ''0'' \<or> x = t' @ ''1''" for x
        using that False np by auto
      have same: "GetAccountByPath db1 x = GetAccountByPath db x"
        if x: "x = t' \<or> x = t' @ ''0'' \<or> x = t' @ ''1''" for x
      proof (cases "x = t @ [b]")
        case False
        with ne [OF x] unch show ?thesis by simp
      next
        case True
        with x False have "t' = t @ [b]" by auto
        with lt' len have "s \<noteq> []" by auto
        with True same_q show ?thesis by simp
      qed
      have "consistent_at env db1 t' = consistent_at env db t'"
        by (rule consistent_at_cong) (simp_all add: same)
      with old show ?thesis by simp
    qed
  qed
  have "\<not> db_fault db' \<and> levels_ok db' \<and> GetAccountByPath db' [] = Inr c'
       \<and> (\<forall>t. is_bit_path t \<and> length t < depth \<longrightarrow> consistent_at env db' t)
       \<and> (\<forall>x. length t < length x \<longrightarrow> GetAccountByPath db' x = GetAccountByPath db1 x)
       \<and> (t \<noteq> [] \<longrightarrow> GetAccountByPath db' t = Inr (gorm_updates c1 c1))"
  proof (rule snoc.IH [where s = "b # s" and sibs = rest and c = c1 and n = c1 and db = db1])
    show "\<not> db_fault db1" by (rule nf1)
    show "levels_ok db1" by (rule lv1)
    show "is_bit_path (t @ b # s)" using bp by simp
    show "length (t @ b # s) = depth" using len by simp
    show "t @ b # s \<noteq> []" by simp
    show "GetSiblings_loop db1 (length t) t [] = Inr rest" by (rule rest1)
    show "Path c1 = t" by (rule pc1)
    show "Hash c1 \<noteq> []" by (rule hc1)
    show "GetAccountByPath db1 t = Inr c1" by (rule c1)
    show "b # s \<noteq> [] \<longrightarrow> c1 = c1" by simp
    show "\<forall>t'. is_bit_path t' \<and> length t' < depth \<and> (\<forall>u. u \<noteq> [] \<longrightarrow> t \<noteq> t' @ u)
      \<longrightarrow> consistent_at env db1 t'" by (rule cons1)
    show "StoreLeaf_loop env (t @ b # s) (length (b # s)) rest c1 db1 = (Inr c', db')"
      using cont by simp
  qed
  then have r: "\<not> db_fault db'" "levels_ok db'" "GetAccountByPath db' [] = Inr c'"
    "\<forall>t. is_bit_path t \<and> length t < depth \<longrightarrow> consistent_at env db' t"
    and fr: "\<forall>x. length t < length x \<longrightarrow> GetAccountByPath db' x = GetAccountByPath db1 x"
    by simp_all
  have "GetAccountByPath db' x = GetAccountByPath db x" if "length (t @ [b]) < length x" for x
  proof -
    from that have "x \<noteq> t" "x \<noteq> t @ [b]" by auto
    with unch have "GetAccountByPath db1 x = GetAccountByPath db x" by simp
    moreover from that fr have "GetAccountByPath db' x = GetAccountByPath db1 x" by simp
    ultimately show ?thesis by simp
  qed
  moreover from fr gq have "GetAccountByPath db' (t @ [b]) = Inr (gorm_updates n c)"
    by simp
  ultimately show ?case
    using r by simp
qed

lemma tree_consistent_intro:
  assumes "\<not> db_fault db" and "levels_ok db" and "GetAccountByPath db [] = Inr root"
    and "\<forall>t. is_bit_path t \<and> length t < depth \<longrightarrow> consistent_at env db t"
  shows "tree_consistent env depth db"
  using assms by (simp add: tree_consistent_def list_all_iff in_bit_paths)

text \<open>
  \<open>UpdateAccount\<close> on a leaf of a consistent tree, when it succeeds, leaves a consistent
  tree in which the leaf has the hash of the new data. So the round trip of claim C4
  holds again after every successful update.
\<close>

lemma UpdateAccount_keeps_tree_consistent:
  assumes hb: "hash_nonblank env" and tc: "tree_consistent env depth db"
    and bp: "is_bit_path (Path a)" and len: "length (Path a) = depth" and pos: "0 < depth"
    and run: "UpdateAccount env a db = (Inr (), db')"
  shows "tree_consistent env depth db'"
    and "\<exists>leaf. GetAccountByPath db' (Path a) = Inr leaf \<and> Hash leaf = Keccak256 env (bytes_of (Data a))"
proof -
  define a1 where "a1 = CreateAccountHash env a"
  define p where "p = Path a"
  have pa1: "Path a1 = p" and ha1: "Hash a1 = Keccak256 env (bytes_of (Data a))"
    by (simp_all add: a1_def p_def CreateAccountHash_def)
  from hb ha1 have hn: "Hash a1 \<noteq> []"
    by (simp add: hash_nonblank_def)
  from run obtain sibs where sibs: "GetSiblings db p = Inr sibs"
    and st: "StoreLeaf env a1 p sibs db = (Inr (), db')"
    by (cases "GetSiblings db p")
      (auto simp: UpdateAccount_def Let_def a1_def [symmetric] pa1)
  from st obtain c' db1 where loop: "StoreLeaf_loop env p 0 sibs a1 db = (Inr c', db1)"
    and root: "UpdateRootNodeHashes (Hash c') db1 = (Inr (), db')"
    by (auto simp: StoreLeaf_def split: prod.splits sum.splits)
  from tc have nf: "\<not> db_fault db" and lv: "levels_ok db"
    by (simp_all add: tree_consistent_def)
  from sibling_proof_general [OF tc, of p "[]"] bp len obtain n where
    n: "GetAccountByPath db p = Inr n"
    by (auto simp: p_def)
  have "\<not> db_fault db1 \<and> levels_ok db1 \<and> GetAccountByPath db1 [] = Inr c'
       \<and> (\<forall>t. is_bit_path t \<and> length t < depth \<longrightarrow> consistent_at env db1 t)
       \<and> (\<forall>x. length p < length x \<longrightarrow> GetAccountByPath db1 x = GetAccountByPath db x)
       \<and> (p \<noteq> [] \<longrightarrow> GetAccountByPath db1 p = Inr (gorm_updates n a1))"
  proof (rule StoreLeaf_loop_consistent [OF hb, where s = "[]" and sibs = sibs and c = a1
        and n = n and db = db])
    show "\<not> db_fault db" by (rule nf)
    show "levels_ok db" by (rule lv)
    show "is_bit_path (p @ [])" using bp by (simp add: p_def)
    show "length (p @ []) = depth" using len by (simp add: p_def)
    show "p @ [] \<noteq> []" using len pos by (auto simp: p_def)
    show "GetSiblings_loop db (length p) p [] = Inr sibs"
      using sibs by (simp add: GetSiblings_def)
    show "Path a1 = p" by (rule pa1)
    show "Hash a1 \<noteq> []" by (rule hn)
    show "GetAccountByPath db p = Inr n" by (rule n)
    show "[] \<noteq> [] \<longrightarrow> n = a1" by simp
    show "\<forall>t. is_bit_path t \<and> length t < depth \<and> (\<forall>u. u \<noteq> [] \<longrightarrow> p \<noteq> t @ u)
        \<longrightarrow> consistent_at env db t"
      using tree_consistent_at [OF tc] by blast
    show "StoreLeaf_loop env (p @ []) (length []) sibs a1 db = (Inr c', db1)"
      using loop by simp
  qed
  then have nf1: "\<not> db_fault db1" and lv1: "levels_ok db1"
    and r1: "GetAccountByPath db1 [] = Inr c'"
    and c1: "\<forall>t. is_bit_path t \<and> length t < depth \<longrightarrow> consistent_at env db1 t"
    and leaf1: "p \<noteq> [] \<longrightarrow> GetAccountByPath db1 p = Inr (gorm_updates n a1)"
    by simp_all
  define tmp where "tmp = zeroAccount\<lparr>Path := [], Hash := Hash c'\<rparr>"
  have db': "db' = snd (updateAccount tmp [] db1)"
    using root by (simp add: UpdateRootNodeHashes_def tmp_def)
  have ptmp: "Path tmp = [] \<or> Path tmp = []" and ltmp: "Level tmp = 0 \<or> ([]::string) \<noteq> []"
    by (simp_all add: tmp_def zeroAccount_def)
  have nf': "\<not> db_fault db'"
    unfolding db' using updateAccount_ok [OF nf1] by simp
  have lv': "levels_ok db'"
    unfolding db' by (rule updateAccount_levels [OF lv1 nf1 ptmp ltmp])
  have same: "GetAccountByPath db' x = GetAccountByPath db1 x" for x
  proof (cases "x = []")
    case True
    with r1 show ?thesis
      unfolding db' updateAccount_lookup [OF nf1 ptmp]
      by (simp add: tmp_def gorm_updates_root_hash)
  next
    case False
    then show ?thesis
      unfolding db' updateAccount_lookup [OF nf1 ptmp]
      by (cases "GetAccountByPath db1 x") simp_all
  qed
  have "consistent_at env db' t = consistent_at env db1 t" for t
    by (rule consistent_at_cong) (simp_all add: same)
  with c1 have c': "\<forall>t. is_bit_path t \<and> length t < depth \<longrightarrow> consistent_at env db' t"
    by simp
  from r1 same have "GetAccountByPath db' [] = Inr c'"
    by simp
  from tree_consistent_intro [OF nf' lv' this c'] show "tree_consistent env depth db'" .
  from len pos have "p \<noteq> []"
    by (auto simp: p_def)
  with leaf1 same have "GetAccountByPath db' p = Inr (gorm_updates n a1)"
    by simp
  moreover have "Hash (gorm_updates n a1) = Keccak256 env (bytes_of (Data a))"
    using hn ha1 by (simp add: gorm_updates_Hash)
  ultimately show "\<exists>leaf. GetAccountByPath db' (Path a) = Inr leaf \<and> Hash leaf = Keccak256 env (bytes_of (Data a))"
    by (auto simp: p_def)
qed

lemma toy_core_hash_nonblank: "hash_nonblank toy_core"
  by (simp add: hash_nonblank_def toy_core_def)

text \<open>
  Together: after a successful \<open>UpdateAccount\<close> on a leaf of a consistent tree, the
  root that \<open>StoreLeaf\<close> has written is the recomputation from the hash of the new
  data and the siblings of the leaf.
\<close>

lemma UpdateAccount_root_is_recomputation:
  assumes "hash_nonblank env" and "tree_consistent env depth db"
    and "is_bit_path (Path a)" and "length (Path a) = depth" and "0 < depth"
    and "UpdateAccount env a db = (Inr (), db')"
  shows "\<exists>sibs root. GetSiblings db' (Path a) = Inr sibs \<and> GetRoot db' = Inr root
           \<and> recompute_root env (Path a) 0 (Keccak256 env (bytes_of (Data a))) sibs = Inr (Hash root)"
proof -
  from UpdateAccount_keeps_tree_consistent [OF assms]
  have tc: "tree_consistent env depth db'"
    and "\<exists>leaf. GetAccountByPath db' (Path a) = Inr leaf \<and> Hash leaf = Keccak256 env (bytes_of (Data a))"
    by simp_all
  then obtain leaf where leaf: "GetAccountByPath db' (Path a) = Inr leaf"
    "Hash leaf = Keccak256 env (bytes_of (Data a))"
    by blast
  from tc have "GetRoot db' = GetAccountByPath db' []"
    by (intro GetRoot_eq_path) (simp add: tree_consistent_def)
  with sibling_proof_general [OF tc, of "Path a" "[]"] assms(3,4) leaf show ?thesis
    by (auto simp: GetSiblings_def)
qed

section \<open>InitBalancesTree builds a consistent tree\<close>

subsection \<open>Paths in binary order\<close>

lemma next_path_snoc:
  "next_path (p @ [c]) =
     (if c = CHR ''0'' then Some (p @ ''1'') else map_option (\<lambda>q. q @ ''0'') (next_path p))"
  by (simp add: next_path_def option.map_comp o_def)

lemma length_path_of: "length (path_of n k) = n"
  by (induction n arbitrary: k) simp_all

lemma is_bit_path_path_of: "is_bit_path (path_of n k)"
  by (induction n arbitrary: k) (simp_all add: is_bit_path_def)

lemma path_of_zero: "path_of n 0 = replicate n (CHR ''0'')"
  by (induction n) (simp_all add: replicate_append_same)

lemma path_of_double:
  "path_of (Suc n) (2 * k) = path_of n k @ ''0''"
  "path_of (Suc n) (2 * k + 1) = path_of n k @ ''1''"
  by simp_all

lemma butlast_path_of: "butlast (path_of (Suc n) k) = path_of n (k div 2)"
  by simp

lemma next_path_path_of:
  "Suc k < 2 ^ n \<Longrightarrow> next_path (path_of n k) = Some (path_of n (Suc k))"
proof (induction n arbitrary: k)
  case 0
  then show ?case by simp
next
  case (Suc n)
  show ?case
  proof (cases "even k")
    case True
    then have "Suc k div 2 = k div 2"
      by (auto elim: evenE)
    with True show ?thesis
      by (simp add: next_path_snoc)
  next
    case False
    then obtain j where k: "k = 2 * j + 1"
      by (auto elim: oddE)
    with Suc.prems have "Suc j < 2 ^ n"
      by simp
    from Suc.IH [OF this] k show ?thesis
      by (simp add: next_path_snoc)
  qed
qed

lemma path_of_inj:
  "k < 2 ^ n \<Longrightarrow> k' < 2 ^ n \<Longrightarrow> path_of n k = path_of n k' \<Longrightarrow> k = k'"
proof (induction n arbitrary: k k')
  case 0
  then show ?case by simp
next
  case (Suc n)
  from Suc.prems(3) have p: "path_of n (k div 2) = path_of n (k' div 2)"
    and e: "even k = even k'"
    by (auto split: if_splits)
  from Suc.prems(1,2) have "k div 2 < 2 ^ n" "k' div 2 < 2 ^ n"
    by simp_all
  from Suc.IH [OF this p] have "k div 2 = k' div 2" .
  with e show ?case
    by (metis div_mult_mod_eq mod2_eq_if)
qed

lemma distinct_paths: "distinct (map (path_of n) [0..<2 ^ n])"
  by (auto simp: distinct_map inj_on_def dest: path_of_inj)

lemma bit_path_is_path_of:
  "is_bit_path t \<Longrightarrow> \<exists>k < 2 ^ length t. t = path_of (length t) k"
proof (induction t rule: rev_induct)
  case Nil
  then show ?case by simp
next
  case (snoc b t)
  then have bt: "is_bit_path t" and b: "b = CHR ''0'' \<or> b = CHR ''1''"
    by (simp_all add: is_bit_path_def)
  from snoc.IH [OF bt] obtain k where k: "k < 2 ^ length t" "t = path_of (length t) k"
    by blast
  define k' where "k' = (if b = CHR ''0'' then 2 * k else 2 * k + 1)"
  have "k' < 2 ^ length (t @ [b])"
    using k(1) by (simp add: k'_def)
  moreover have "t @ [b] = path_of (length (t @ [b])) k'"
    using k(2) b by (auto simp: k'_def)
  ultimately show ?case
    by blast
qed

subsection \<open>Rows and lookups\<close>

lemma stored_row_simps:
  "Path (stored_row r) = Path r" "Level (stored_row r) = Level r" "Hash (stored_row r) = Hash r"
  by (simp_all add: stored_row_def split: option.splits)

lemma filter_singleton:
  "distinct (map f xs) \<Longrightarrow> k < length xs \<Longrightarrow> filter (\<lambda>x. f x = f (xs ! k)) xs = [xs ! k]"
proof (induction xs arbitrary: k)
  case Nil
  then show ?case by simp
next
  case (Cons x xs)
  show ?case
  proof (cases k)
    case 0
    from Cons.prems(1) have "f x \<notin> f ` set xs"
      by simp
    then have "\<forall>y \<in> set xs. f y \<noteq> f x"
      by (metis imageI)
    then have "filter (\<lambda>y. f y = f x) xs = []"
      by (simp add: filter_empty_conv)
    with 0 show ?thesis by simp
  next
    case (Suc j)
    with Cons.prems have j: "j < length xs" and d: "distinct (map f xs)"
      by simp_all
    from Cons.prems(1) j have "f x \<noteq> f (xs ! j)"
      by auto
    with Cons.IH [OF d j] Suc show ?thesis by simp
  qed
qed

lemma level_rows_nth_path:
  assumes "map Path (level_rows db n) = map (path_of n) [0..<2 ^ n]" and "k < 2 ^ n"
  shows "length (level_rows db n) = 2 ^ n" and "Path (level_rows db n ! k) = path_of n k"
proof -
  from assms(1) have "length (map Path (level_rows db n)) = length (map (path_of n) [0..<2 ^ n])"
    by simp
  then show len: "length (level_rows db n) = 2 ^ n"
    by simp
  from assms(1) have "map Path (level_rows db n) ! k = map (path_of n) [0..<2 ^ n] ! k"
    by simp
  with len assms(2) show "Path (level_rows db n ! k) = path_of n k"
    by simp
qed

lemma built_lookup:
  assumes b: "built env depth i db" and n: "i \<le> n" "n \<le> depth" and k: "k < 2 ^ n"
  shows "GetAccountByPath db (path_of n k) = Inr (level_rows db n ! k)"
proof -
  from b n have rows: "map Path (level_rows db n) = map (path_of n) [0..<2 ^ n]"
    and lev: "\<forall>r \<in> set (accounts db). Level r = length (Path r)" and nf: "\<not> db_fault db"
    by (simp_all add: built_def)
  note lr = level_rows_nth_path [OF rows k]
  have "filter (\<lambda>r. Path r = path_of n k) (accounts db)
      = filter (\<lambda>r. Path r = path_of n k) (level_rows db n)"
    unfolding level_rows_def filter_filter
    using lev by (intro filter_cong) (auto simp: length_path_of)
  also have "\<dots> = filter (\<lambda>r. Path r = Path (level_rows db n ! k)) (level_rows db n)"
    by (simp add: lr(2))
  also have "\<dots> = [level_rows db n ! k]"
  proof (rule filter_singleton)
    show "distinct (map Path (level_rows db n))"
      unfolding rows by (rule distinct_paths)
    show "k < length (level_rows db n)"
      using lr(1) k by simp
  qed
  finally show ?thesis
    using nf by (simp add: GetAccountByPath_def gorm_Find_one_def)
qed

lemma built_tree_consistent:
  assumes b: "built env depth 0 db"
  shows "tree_consistent env depth db"
proof (rule tree_consistent_intro)
  from b show "\<not> db_fault db"
    by (simp add: built_def)
  from b show "levels_ok db"
    by (auto simp: built_def levels_ok_def list_all_iff)
  from built_lookup [OF b, of 0 0]
  show "GetAccountByPath db [] = Inr (level_rows db 0 ! 0)"
    by simp
  show "\<forall>t. is_bit_path t \<and> length t < depth \<longrightarrow> consistent_at env db t"
  proof (intro allI impI, elim conjE)
    fix t
    assume bt: "is_bit_path t" and lt: "length t < depth"
    from bit_path_is_path_of [OF bt] obtain k where
      k: "k < 2 ^ length t" and tk: "path_of (length t) k = t"
      by metis
    define n where "n = length t"
    from k tk lt have kn: "k < 2 ^ n" and pk: "path_of n k = t" and nd: "n < depth"
      by (simp_all only: n_def)
    have k2: "2 * k < 2 ^ Suc n" "2 * k + 1 < 2 ^ Suc n"
      using kn by simp_all
    have "GetAccountByPath db t = Inr (level_rows db n ! k)"
      using built_lookup [OF b, of n k] nd kn pk by simp
    moreover have "GetAccountByPath db (t @ ''0'') = Inr (level_rows db (Suc n) ! (2 * k))"
      using built_lookup [OF b, of "Suc n" "2 * k"] nd k2(1) pk by simp
    moreover have "GetAccountByPath db (t @ ''1'') = Inr (level_rows db (Suc n) ! (2 * k + 1))"
      using built_lookup [OF b, of "Suc n" "2 * k + 1"] nd k2(2) pk by simp
    moreover have "GetParent env (Hash (level_rows db (Suc n) ! (2 * k)))
        (Hash (level_rows db (Suc n) ! (2 * k + 1))) = Inr (Hash (level_rows db n ! k))"
      using b nd kn by (simp add: built_def)
    ultimately show "consistent_at env db t"
      by (simp add: consistent_at_def)
  qed
qed

subsection \<open>The loops of InitBalancesTree\<close>

lemma binary_paths_adjacent:
  assumes "binary_paths env depth" and "Suc k < 2 ^ depth"
  shows "GetAdjacentNodePath env (path_of depth k) = Inr (path_of depth (Suc k))"
proof -
  have "path_of depth k \<in> set (bit_paths depth)"
    by (simp add: in_bit_paths length_path_of is_bit_path_path_of)
  with assms(1) have "case next_path (path_of depth k) of
      None \<Rightarrow> True | Some q \<Rightarrow> GetAdjacentNodePath env (path_of depth k) = Inr q"
    by (simp add: binary_paths_def list_all_iff)
  with next_path_path_of [OF assms(2)] show ?thesis
    by simp
qed

lemma InitBalancesTree_paths_rows:
  assumes bp: "binary_paths env depth"
  shows "InitBalancesTree_paths env (path_of depth k) accs = Inr recs \<Longrightarrow>
     k + length accs < 2 ^ depth \<Longrightarrow>
     map Path recs = map (path_of depth) [Suc k..<Suc k + length accs]
       \<and> (\<forall>r \<in> set recs. Level r = length (Path r))"
proof (induction accs arbitrary: k recs)
  case Nil
  then show ?case by simp
next
  case (Cons acc rest)
  from Cons.prems(2) have k: "Suc k < 2 ^ depth" and k': "Suc k + length rest < 2 ^ depth"
    by simp_all
  note adj = binary_paths_adjacent [OF bp k]
  from Cons.prems(1) adj obtain recs' where
    rec: "InitBalancesTree_paths env (path_of depth (Suc k)) rest = Inr recs'"
    and recs: "recs = UpdatePath acc (path_of depth (Suc k)) # recs'"
    by (auto split: sum.splits)
  from Cons.IH [OF rec k'] have
    ih: "map Path recs' = map (path_of depth) [Suc (Suc k)..<Suc (Suc k) + length rest]"
      "\<forall>r \<in> set recs'. Level r = length (Path r)"
    by simp_all
  have "[Suc k..<Suc k + length (acc # rest)]
      = Suc k # [Suc (Suc k)..<Suc (Suc k) + length rest]"
    by (simp del: upt_Suc add: upt_conv_Cons)
  with ih recs show ?case
    by (simp add: UpdatePath_def del: upt_Suc)
qed

lemma InitBalancesTree_parents_rows:
  "InitBalancesTree_parents env accs = Inr nodes \<Longrightarrow>
     length accs = 2 * length nodes
     \<and> (\<forall>k < length nodes.
           Path (nodes ! k) = butlast (Path (accs ! (2 * k)))
           \<and> Level (nodes ! k) = length (Path (nodes ! k))
           \<and> GetParent env (Hash (accs ! (2 * k))) (Hash (accs ! (2 * k + 1)))
               = Inr (Hash (nodes ! k)))"
proof (induction env accs arbitrary: nodes rule: InitBalancesTree_parents.induct)
  case (1 env)
  then show ?case by simp
next
  case (2 env l)
  then show ?case by simp
next
  case (3 env l r rest)
  from "3.prems" obtain h nodes' where h: "GetParent env (Hash l) (Hash r) = Inr h"
    and rec: "InitBalancesTree_parents env rest = Inr nodes'"
    and nodes: "nodes = NewAccountNode (GetParentPath (Path l)) h # nodes'"
    by (auto split: sum.splits)
  from "3.IH" [OF h rec] have len: "length rest = 2 * length nodes'"
    and ih: "\<forall>k < length nodes'.
           Path (nodes' ! k) = butlast (Path (rest ! (2 * k)))
           \<and> Level (nodes' ! k) = length (Path (nodes' ! k))
           \<and> GetParent env (Hash (rest ! (2 * k))) (Hash (rest ! (2 * k + 1)))
               = Inr (Hash (nodes' ! k))"
    by simp_all
  have "Path (nodes ! k) = butlast (Path ((l # r # rest) ! (2 * k)))
           \<and> Level (nodes ! k) = length (Path (nodes ! k))
           \<and> GetParent env (Hash ((l # r # rest) ! (2 * k))) (Hash ((l # r # rest) ! (2 * k + 1)))
               = Inr (Hash (nodes ! k))" if "k < length nodes" for k
  proof (cases k)
    case 0
    with nodes h show ?thesis
      by (simp add: NewAccountNode_def UpdatePath_def GetParentPath_def)
  next
    case (Suc j)
    with that nodes have "j < length nodes'" by simp
    with ih Suc nodes show ?thesis by simp
  qed
  with len nodes show ?case by simp
qed

lemma BulkInsert_ok:
  "\<not> db_fault db \<Longrightarrow>
     BulkInsert rows db = (Inr (), db\<lparr>accounts := accounts db @ map stored_row rows\<rparr>)"
  by (simp add: BulkInsert_def)

lemma level_rows_append:
  "level_rows (db\<lparr>accounts := accounts db @ xs\<rparr>) n
     = level_rows db n @ filter (\<lambda>r. Level r = n) xs"
  by (simp add: level_rows_def)

lemma filter_all: "\<forall>x \<in> set xs. P x \<Longrightarrow> filter P xs = xs"
  by (induction xs) simp_all

lemma filter_none: "\<forall>x \<in> set xs. \<not> P x \<Longrightarrow> filter P xs = []"
  by (induction xs) simp_all

lemma InitBalancesTree_levels_step:
  assumes b: "built env depth (Suc m) db" and m: "Suc m \<le> depth"
    and par: "InitBalancesTree_parents env (level_rows db (Suc m)) = Inr nodes"
  shows "built env depth m (db\<lparr>accounts := accounts db @ map stored_row nodes\<rparr>)"
proof -
  define accs where "accs = level_rows db (Suc m)"
  define new where "new = map stored_row nodes"
  define db1 where "db1 = db\<lparr>accounts := accounts db @ new\<rparr>"
  from b m have rows: "map Path accs = map (path_of (Suc m)) [0..<2 ^ Suc m]"
    by (simp add: built_def accs_def)
  have la: "length accs = 2 ^ Suc m"
    using level_rows_nth_path(1) [OF rows [unfolded accs_def], of 0]
    by (simp add: accs_def)
  have pa: "Path (accs ! j) = path_of (Suc m) j" if "j < 2 ^ Suc m" for j
    using level_rows_nth_path(2) [OF rows [unfolded accs_def] that]
    by (simp add: accs_def)
  from InitBalancesTree_parents_rows [OF par [folded accs_def]]
  have len: "length accs = 2 * length nodes"
    and nd: "\<forall>k < length nodes.
           Path (nodes ! k) = butlast (Path (accs ! (2 * k)))
           \<and> Level (nodes ! k) = length (Path (nodes ! k))
           \<and> GetParent env (Hash (accs ! (2 * k))) (Hash (accs ! (2 * k + 1)))
               = Inr (Hash (nodes ! k))"
    by simp_all
  from la len have ln: "length nodes = 2 ^ m"
    by simp
  have node: "Path (nodes ! k) = path_of m k" "Level (nodes ! k) = m"
    "GetParent env (Hash (accs ! (2 * k))) (Hash (accs ! (2 * k + 1))) = Inr (Hash (nodes ! k))"
    if k: "k < 2 ^ m" for k
  proof -
    from k have k2: "2 * k < 2 ^ Suc m" by simp
    from nd k ln have "Path (nodes ! k) = butlast (Path (accs ! (2 * k)))"
      by simp
    also have "\<dots> = path_of m k"
      using pa [OF k2] by simp
    finally show "Path (nodes ! k) = path_of m k" .
    with nd k ln show "Level (nodes ! k) = m"
      by (simp add: length_path_of)
    from nd k ln show "GetParent env (Hash (accs ! (2 * k))) (Hash (accs ! (2 * k + 1)))
        = Inr (Hash (nodes ! k))"
      by simp
  qed
  have lnew: "length new = 2 ^ m"
    by (simp add: new_def ln)
  have newk: "Path (new ! k) = path_of m k" "Level (new ! k) = m" "Hash (new ! k) = Hash (nodes ! k)"
    if "k < 2 ^ m" for k
    using that node [OF that] ln by (simp_all add: new_def stored_row_simps)
  have new_lev: "\<forall>r \<in> set new. Level r = m \<and> Level r = length (Path r)"
  proof
    fix r
    assume "r \<in> set new"
    then obtain k where "k < length new" "r = new ! k"
      by (auto simp: in_set_conv_nth)
    with lnew newk [of k] show "Level r = m \<and> Level r = length (Path r)"
      by (simp add: length_path_of)
  qed
  have new_paths: "map Path new = map (path_of m) [0..<2 ^ m]"
    by (rule nth_equalityI) (simp_all add: lnew newk)
  have lr: "level_rows db1 n = level_rows db n @ (if n = m then new else [])" for n
  proof (cases "n = m")
    case True
    with new_lev have "filter (\<lambda>r. Level r = n) new = new"
      by (intro filter_all) simp
    with True show ?thesis
      by (simp add: db1_def level_rows_append)
  next
    case False
    with new_lev have "filter (\<lambda>r. Level r = n) new = []"
      by (intro filter_none) simp
    with False show ?thesis
      by (simp add: db1_def level_rows_append)
  qed
  from b have old_empty: "level_rows db n = []" if "n < Suc m" for n
    using that by (simp add: built_def)
  have lm: "level_rows db1 m = new"
    using lr [of m] old_empty [of m] by simp
  have lo: "level_rows db1 n = level_rows db n" if "m < n" for n
    using lr [of n] that by simp
  have "\<not> db_fault db1"
    using b by (simp add: built_def db1_def)
  moreover have "\<forall>r \<in> set (accounts db1). Level r = length (Path r)"
    using b new_lev by (auto simp: built_def db1_def)
  moreover have "\<forall>n < m. level_rows db1 n = []"
    using lr old_empty by simp
  moreover have "\<forall>n. m \<le> n \<and> n \<le> depth \<longrightarrow>
      map Path (level_rows db1 n) = map (path_of n) [0..<2 ^ n]"
  proof (intro allI impI, elim conjE)
    fix n
    assume n: "m \<le> n" "n \<le> depth"
    show "map Path (level_rows db1 n) = map (path_of n) [0..<2 ^ n]"
    proof (cases "n = m")
      case True
      with lm new_paths show ?thesis by simp
    next
      case False
      with n have "m < n" by simp
      with b n lo [OF this] show ?thesis
        by (simp add: built_def)
    qed
  qed
  moreover have "\<forall>n k. m \<le> n \<and> n < depth \<and> k < 2 ^ n \<longrightarrow>
      GetParent env (Hash (level_rows db1 (Suc n) ! (2 * k)))
                    (Hash (level_rows db1 (Suc n) ! (2 * k + 1)))
        = Inr (Hash (level_rows db1 n ! k))"
  proof (intro allI impI, elim conjE)
    fix n k :: nat
    assume n: "m \<le> n" "n < depth" and k: "k < 2 ^ n"
    show "GetParent env (Hash (level_rows db1 (Suc n) ! (2 * k)))
                    (Hash (level_rows db1 (Suc n) ! (2 * k + 1)))
        = Inr (Hash (level_rows db1 n ! k))"
    proof (cases "n = m")
      case True
      have "level_rows db1 (Suc m) = accs"
        using lo [of "Suc m"] by (simp add: accs_def)
      with True lm k node(3) [of k] newk(3) [of k] show ?thesis
        by simp
    next
      case False
      with n have "m < n" "m < Suc n" by simp_all
      with b n k lo [of n] lo [of "Suc n"] show ?thesis
        by (simp add: built_def)
    qed
  qed
  ultimately have "built env depth m db1"
    by (simp add: built_def)
  then show ?thesis
    by (simp add: db1_def new_def)
qed

lemma InitBalancesTree_levels_built:
  "built env depth n db \<Longrightarrow> n \<le> depth \<Longrightarrow>
     InitBalancesTree_levels env n db = (Inr (), db') \<Longrightarrow> built env depth 0 db'"
proof (induction n arbitrary: db)
  case 0
  then show ?case by simp
next
  case (Suc m)
  from Suc.prems(1) have nf: "\<not> db_fault db"
    by (simp add: built_def)
  then have g: "GetAccountsAtDepth db (Suc m) = Inr (level_rows db (Suc m))"
    by (simp add: GetAccountsAtDepth_def gorm_Find_all_def level_rows_def)
  from Suc.prems(3) g obtain nodes where
    par: "InitBalancesTree_parents env (level_rows db (Suc m)) = Inr nodes"
    by (auto split: sum.splits)
  from Suc.prems(3) g par BulkInsert_ok [OF nf, of nodes]
  have rec: "InitBalancesTree_levels env m (db\<lparr>accounts := accounts db @ map stored_row nodes\<rparr>)
      = (Inr (), db')"
    by simp
  from InitBalancesTree_levels_step [OF Suc.prems(1,2) par]
  have "built env depth m (db\<lparr>accounts := accounts db @ map stored_row nodes\<rparr>)" .
  from Suc.IH [OF this _ rec] Suc.prems(2) show ?case
    by simp
qed

lemma exp2_int_length:
  assumes "exp2_int depth = int (length g)"
  shows "length g = 2 ^ depth"
proof (cases "depth < 63")
  case True
  with assms have "int (length g) = int (2 ^ depth)"
    by (simp add: exp2_int_def)
  then show ?thesis
    by (simp only: of_nat_eq_iff)
next
  case False
  with assms have "int (length g) = - (2 ^ 63)"
    by (simp add: exp2_int_def)
  moreover have "- (2 ^ 63) < (0::int)" by simp
  ultimately show ?thesis by linarith
qed

lemma InitBalancesTree_built:
  assumes bp: "binary_paths env depth" and empty: "accounts db0 = []"
    and run: "InitBalancesTree env depth g db0 = (Inr (), db)"
  shows "built env depth 0 db"
proof -
  from run have "exp2_int depth = int (length g)"
    by (auto simp: InitBalancesTree_def split: if_splits)
  then have lg: "length g = 2 ^ depth"
    by (rule exp2_int_length)
  then obtain g0 others where g: "g = g0 # others"
    by (cases g) simp_all
  with lg have lo: "Suc (length others) = 2 ^ depth"
    by simp
  define acc1 where "acc1 = (CreateAccountHash env (UpdatePath g0 (GenCoordinatorPath env depth)))
      \<lparr>Type := TYPE_TERMINAL\<rparr>"
  have p1: "Path acc1 = path_of depth 0" and l1: "Level acc1 = length (Path acc1)"
    using bp by (simp_all add: acc1_def CreateAccountHash_def UpdatePath_def binary_paths_def
        path_of_zero)
  define db1 where "db1 = db0\<lparr>accounts := [stored_row acc1]\<rparr>"
  from run g have nf0: "\<not> db_fault db0"
    by (auto simp: InitBalancesTree_def InsertCoordinatorAccounts_def gorm_Create_def Let_def
        split: if_splits)
  then have ins: "InsertCoordinatorAccounts env g0 depth db0 = (Inr (path_of depth 0), db1)"
    using empty p1
    by (simp add: InsertCoordinatorAccounts_def gorm_Create_def Let_def acc1_def [symmetric]
        db1_def)
  have nf1: "\<not> db_fault db1"
    using nf0 by (simp add: db1_def)
  from run g ins \<open>exp2_int depth = int (length g)\<close> obtain recs where
    paths: "InitBalancesTree_paths env (path_of depth 0) others = Inr recs"
    by (auto simp: InitBalancesTree_def split: sum.splits)
  define db2 where "db2 = db1\<lparr>accounts := accounts db1 @ map stored_row recs\<rparr>"
  from run g ins paths \<open>exp2_int depth = int (length g)\<close> BulkInsert_ok [OF nf1, of recs]
  have levels: "InitBalancesTree_levels env depth db2 = (Inr (), db)"
    by (simp add: InitBalancesTree_def db2_def)
  from lo have "0 + length others < 2 ^ depth"
    by simp
  from InitBalancesTree_paths_rows [OF bp paths this]
  have rp: "map Path recs = map (path_of depth) [Suc 0..<Suc 0 + length others]"
    and rl: "\<forall>r \<in> set recs. Level r = length (Path r)"
    by simp_all
  have acc2: "accounts db2 = stored_row acc1 # map stored_row recs"
    by (simp add: db2_def db1_def)
  have "[0..<2 ^ depth] = 0 # [Suc 0..<Suc 0 + length others]"
    using lo by (simp del: upt_Suc add: upt_conv_Cons)
  with rp p1 have paths2: "map Path (accounts db2) = map (path_of depth) [0..<2 ^ depth]"
    by (simp add: acc2 stored_row_simps o_def del: upt_Suc)
  have lev2: "\<forall>r \<in> set (accounts db2). Level r = length (Path r)"
    using l1 rl by (auto simp: acc2 stored_row_simps)
  have "length (Path r) = depth" if "r \<in> set (accounts db2)" for r
  proof -
    from that have "Path r \<in> set (map Path (accounts db2))"
      by simp
    then show ?thesis
      unfolding paths2 by (auto simp: length_path_of)
  qed
  with lev2 have all_depth: "\<forall>r \<in> set (accounts db2). Level r = depth"
    by simp
  have rows_depth: "level_rows db2 depth = accounts db2"
    unfolding level_rows_def using all_depth by (intro filter_all) simp
  have rows_above: "level_rows db2 n = []" if "n < depth" for n
    unfolding level_rows_def using all_depth that by (intro filter_none) simp
  have nf2: "\<not> db_fault db2"
    using nf1 by (simp add: db2_def)
  have rows2: "\<forall>n. depth \<le> n \<and> n \<le> depth \<longrightarrow>
      map Path (level_rows db2 n) = map (path_of n) [0..<2 ^ n]"
    using rows_depth paths2 by (metis le_antisym)
  have "built env depth depth db2"
    unfolding built_def using nf2 lev2 rows_above rows2
    by (intro conjI) auto
  from InitBalancesTree_levels_built [OF this _ levels] show ?thesis
    by simp
qed

lemma InitBalancesTree_consistent:
  assumes "binary_paths env depth" and "accounts db0 = []"
    and "InitBalancesTree env depth g db0 = (Inr (), db)"
  shows "tree_consistent env depth db"
  by (rule built_tree_consistent) (rule InitBalancesTree_built [OF assms])

section \<open>The sibling proof round trip\<close>

lemma UpdateAccount_root_only:
  assumes tc: "tree_consistent env 0 db" and p: "Path a = []"
    and run: "UpdateAccount env a db = (Inr (), db')"
  shows "tree_consistent env 0 db'"
proof -
  define tmp where "tmp = zeroAccount\<lparr>Path := [], Hash := Hash (CreateAccountHash env a)\<rparr>"
  from tc have nf: "\<not> db_fault db" and lv: "levels_ok db"
    by (simp_all add: tree_consistent_def)
  from tree_consistent_root [OF tc] obtain root where root: "GetAccountByPath db [] = Inr root"
    by blast
  have pa: "Path (CreateAccountHash env a) = []"
    using p by (simp add: CreateAccountHash_def)
  from run have db': "db' = snd (updateAccount tmp [] db)"
    by (simp add: UpdateAccount_def Let_def pa GetSiblings_def StoreLeaf_def
        UpdateRootNodeHashes_def tmp_def)
  have ptmp: "Path tmp = [] \<or> Path tmp = []" and ltmp: "Level tmp = 0 \<or> ([]::string) \<noteq> []"
    by (simp_all add: tmp_def zeroAccount_def)
  have "\<not> db_fault db'"
    unfolding db' using updateAccount_ok [OF nf] by simp
  moreover have "levels_ok db'"
    unfolding db' by (rule updateAccount_levels [OF lv nf ptmp ltmp])
  moreover have "GetAccountByPath db' [] = Inr (gorm_updates root tmp)"
    unfolding db' updateAccount_lookup [OF nf ptmp] by (simp add: root)
  ultimately show ?thesis
    by (intro tree_consistent_intro) simp_all
qed

lemma UpdateAccounts_keep_tree_consistent:
  assumes hb: "hash_nonblank env"
  shows "tree_consistent env depth db \<Longrightarrow> list_all (at_leaf depth) updates \<Longrightarrow>
     UpdateAccounts env updates db = (Inr (), db') \<Longrightarrow> tree_consistent env depth db'"
proof (induction updates arbitrary: db)
  case Nil
  then show ?case by simp
next
  case (Cons a rest)
  from Cons.prems(3) obtain db1 where one: "UpdateAccount env a db = (Inr (), db1)"
    and more: "UpdateAccounts env rest db1 = (Inr (), db')"
    by (auto split: prod.splits sum.splits)
  from Cons.prems(2) have "at_leaf depth a" and rest: "list_all (at_leaf depth) rest"
    by simp_all
  then have leaf: "is_bit_path (Path a)" "length (Path a) = depth"
    by (simp_all add: at_leaf_def)
  have "tree_consistent env depth db1"
  proof (cases "depth = 0")
    case True
    with leaf(2) Cons.prems(1) one show ?thesis
      by (auto intro: UpdateAccount_root_only)
  next
    case False
    then have "0 < depth" by simp
    from UpdateAccount_keeps_tree_consistent(1) [OF hb Cons.prems(1) leaf this one]
    show ?thesis .
  qed
  from Cons.IH [OF this rest more] show ?case .
qed

text \<open>
  Claim C4, as stated, on a store left by a failed update. The tree of depth 2 is built
  by \<open>InitBalancesTree\<close>; \<open>UpdateAccount\<close> on the leaf \<open>00\<close> then stores the leaf and
  its parent and fails at the pair hash of the next level, and \<open>StoreLeaf\<close> returns the
  error with those writes in place. In that store the leaves \<open>00\<close> and \<open>11\<close>, their
  siblings and the root are all found, and the fold from neither leaf gives the hash of
  the stored root: with the pair hash of the store it fails, and with the same pair hash
  made total it gives another hash.
\<close>

theorem sibling_proof_stale_root_counterexample:
  "fst (InitBalancesTree fragile_core 2 toy_genesis4
          \<lparr>accounts = [], batches = [], params = Some toy_params, db_fault = False\<rparr>) = Inr ()
   \<and> fst (UpdateAccount fragile_core fragile_update fragile_db4) = Inl (Other ''bad hash'')
   \<and> GetRoot fragile_db4_failed = GetRoot fragile_db4
   \<and> list_all
        (\<lambda>p. case (GetAccountByPath fragile_db4_failed p, GetSiblings fragile_db4_failed p,
                    GetRoot fragile_db4_failed) of
                (Inr leaf, Inr sibs, Inr root) \<Rightarrow>
                  recompute_root fragile_core p 0 (Hash leaf) sibs = Inl (Other ''bad hash'')
                  \<and> (case recompute_root toy_core p 0 (Hash leaf) sibs of
                        Inl e \<Rightarrow> False
                      | Inr h \<Rightarrow> h \<noteq> Hash root)
              | _ \<Rightarrow> False)
        [''00'', ''11'']"
  by code_simp

text \<open>
  Claim C4, amended. Take a store that \<open>InitBalancesTree\<close> has built on an empty
  account table, followed by any run of \<open>UpdateAccount\<close> calls on leaves that all
  succeeded. For the path \<open>p\<close> of any node of that store, in particular of any leaf,
  \<open>GetSiblings p\<close> succeeds, and folding the stored hash of the node with those
  siblings in leaf-to-root order, each on the side the path bit gives, yields the hash
  of the root that \<open>GetRoot\<close> returns. The hashes and path helpers are parameters: the
  hashes never print as the empty string, the coordinator has the leftmost path and
  adjacent paths follow in binary order.
\<close>

theorem sibling_proof_round_trip:
  assumes "hash_nonblank env" and "binary_paths env depth"
    and "accounts db0 = []"
    and "InitBalancesTree env depth genesisAccounts db0 = (Inr (), db1)"
    and "list_all (at_leaf depth) updates"
    and "UpdateAccounts env updates db1 = (Inr (), db)"
    and "is_bit_path p" and "length p \<le> depth"
  shows "\<exists>leaf sibs root. GetAccountByPath db p = Inr leaf
           \<and> GetSiblings db p = Inr sibs
           \<and> GetRoot db = Inr root
           \<and> recompute_root env p 0 (Hash leaf) sibs = Inr (Hash root)"
proof -
  from assms(2-4) have "tree_consistent env depth db1"
    by (rule InitBalancesTree_consistent)
  from UpdateAccounts_keep_tree_consistent [OF assms(1) this assms(5,6)]
  have "tree_consistent env depth db" .
  from sibling_proof_consistent [OF this assms(7,8)] show ?thesis .
qed

theorem sibling_proof_round_trip_witness:
  "binary_paths toy_core 2
   \<and> list_all (at_leaf 2) toy_updates
   \<and> InitBalancesTree toy_core 2 toy_genesis4
        \<lparr>accounts = [], batches = [], params = Some toy_params, db_fault = False\<rparr>
       = (Inr (), toy_db4)
   \<and> UpdateAccounts toy_core toy_updates toy_db4 = (Inr (), toy_db4_after)
   \<and> (\<exists>leaf sibs root. GetAccountByPath toy_db4 ''01'' = Inr leaf
         \<and> GetSiblings toy_db4 ''01'' = Inr sibs
         \<and> GetRoot toy_db4 = Inr root
         \<and> recompute_root toy_core ''01'' 0 (Hash leaf) sibs = Inr (Hash root))
   \<and> (\<exists>leaf sibs root. GetAccountByPath toy_db4_after ''10'' = Inr leaf
         \<and> GetSiblings toy_db4_after ''10'' = Inr sibs
         \<and> GetRoot toy_db4_after = Inr root
         \<and> recompute_root toy_core ''10'' 0 (Hash leaf) sibs = Inr (Hash root))
   \<and> map Data (accounts toy_db4_after)
       = [Some [1, 70, 1, 1], Some [2, 30, 0, 1], Some [3, 0, 0, 1], Some [4, 0, 0, 1],
          Some [48], Some [48], Some [48]]"
proof -
  let ?db0 = "\<lparr>accounts = [], batches = [], params = Some toy_params, db_fault = False\<rparr>"
  have bp: "binary_paths toy_core 2"
    by code_simp
  have leaves: "list_all (at_leaf 2) toy_updates"
    by code_simp
  have "fst (InitBalancesTree toy_core 2 toy_genesis4 ?db0) = Inr ()"
    by code_simp
  then have init: "InitBalancesTree toy_core 2 toy_genesis4 ?db0 = (Inr (), toy_db4)"
    by (simp add: toy_db4_def prod_eq_iff)
  have "fst (UpdateAccounts toy_core toy_updates toy_db4) = Inr ()"
    by code_simp
  moreover have "snd (UpdateAccounts toy_core toy_updates toy_db4) = toy_db4_after"
    by code_simp
  ultimately have upd: "UpdateAccounts toy_core toy_updates toy_db4 = (Inr (), toy_db4_after)"
    by (simp add: prod_eq_iff)
  have none: "list_all (at_leaf 2) []" "UpdateAccounts toy_core [] toy_db4 = (Inr (), toy_db4)"
    by simp_all
  have empty: "accounts ?db0 = []"
    by simp
  have p1: "is_bit_path ''01''" "length ''01'' \<le> (2::nat)"
    and p2: "is_bit_path ''10''" "length ''10'' \<le> (2::nat)"
    by (simp_all add: is_bit_path_def)
  have c: "map Data (accounts toy_db4_after)
       = [Some [1, 70, 1, 1], Some [2, 30, 0, 1], Some [3, 0, 0, 1], Some [4, 0, 0, 1],
          Some [48], Some [48], Some [48]]"
    by code_simp
  from sibling_proof_round_trip [OF toy_core_hash_nonblank bp empty init none p1]
    sibling_proof_round_trip [OF toy_core_hash_nonblank bp empty init leaves upd p2]
    bp leaves init upd c
  show ?thesis
    by blast
qed

end
